theory Spec2Isabelle
  imports Main "HOL-Library.Word" "HOL-Library.AList" "HOL-Library.List_Lexorder"
begin

unbundle bit_operations_syntax

section \<open>Data model\<close>

text \<open>
  The coin database of \<^verbatim>\<open>src/txdb.cpp\<close>: class \<^verbatim>\<open>CCoinsViewDB\<close> owns two
  \<^verbatim>\<open>CDBWrapper\<close> stores, \<^verbatim>\<open>db\<close> (the chainstate) and \<^verbatim>\<open>loadedcoindb\<close> (the
  loaded-coin index). The storage engine itself (\<^verbatim>\<open>dbwrapper.h\<close>) is not part of the
  sources; it is modelled by its contract: point reads, atomic batches of writes and
  erasures, and a forward iterator over a snapshot in bytewise key order.
\<close>

type_synonym byte = "8 word"

text \<open>A \<^verbatim>\<open>uint256\<close> is a blob of 32 bytes; byte \<open>i\<close> of the blob is bits \<open>8i .. 8i+7\<close>.\<close>

type_synonym uint256 = "256 word"

definition IsNull :: "uint256 \<Rightarrow> bool" where
  "IsNull h = (h = 0)"

definition ser_uint256 :: "uint256 \<Rightarrow> byte list" where
  "ser_uint256 h = map (\<lambda>i. ucast (drop_bit (8 * i) h)) [0..<32]"

text \<open>
  An outpoint \<^verbatim>\<open>(hash, n)\<close>; the index field \<^verbatim>\<open>n\<close> is a \<^verbatim>\<open>uint32_t\<close> and is called
  \<open>nIndex\<close> here.
\<close>

record COutPoint =
  hash :: uint256
  nIndex :: "32 word"

type_synonym CScript = "byte list"

record CTxOut =
  nValue :: int
  scriptPubKey :: CScript

text \<open>
  Modelled from the spec: the header \<^verbatim>\<open>primitives/transaction.h\<close> is not among the
  sources. A spent output is the null sentinel (spec section 3: "a coin that has been
  spent is represented as a null/spent sentinel"), which the transaction code writes as
  the amount \<open>-1\<close>.
\<close>

definition CTxOut_IsNull :: "CTxOut \<Rightarrow> bool" where
  "CTxOut_IsNull txout = (nValue txout = - 1)"

text \<open>
  Modelled from the spec: the class \<^verbatim>\<open>Coin\<close> (\<^verbatim>\<open>coins.h\<close>) is not among the sources.
  Its fields follow the five-argument constructor call in \<^verbatim>\<open>CCoinsViewDB::Upgrade\<close>
  (output, height, coinbase flag, critical-data flag, loaded flag) and spec section 3.
\<close>

record Coin =
  out :: CTxOut
  nHeight :: int
  fCoinBase :: bool
  fCriticalData :: bool
  fLoaded :: bool

definition IsSpent :: "Coin \<Rightarrow> bool" where
  "IsSpent c = CTxOut_IsNull (out c)"

text \<open>A loaded-coin record: an outpoint, its coin and a spent flag (spec section 3).\<close>

record LoadedCoin =
  loaded_out :: COutPoint
  loaded_coin :: Coin
  fSpent :: bool

section \<open>Key discriminators\<close>

definition DB_COIN :: byte where "DB_COIN = 0x43"
definition DB_COINS :: byte where "DB_COINS = 0x63"
definition DB_BEST_BLOCK :: byte where "DB_BEST_BLOCK = 0x42"
definition DB_HEAD_BLOCKS :: byte where "DB_HEAD_BLOCKS = 0x48"
definition DB_LOADED_COINS :: byte where "DB_LOADED_COINS = 0x70"

section \<open>The storage engine\<close>

text \<open>
  A store is the list of its records, one per key. \<^verbatim>\<open>NewIterator\<close> takes a snapshot in
  the engine's order, the bytewise order of the serialised keys (\<open>kb\<close> serialises a
  key); \<^verbatim>\<open>Seek\<close> positions the iterator at the first record whose key is not below the
  target. An iterator is the list of records from its position on: it is \<^verbatim>\<open>Valid\<close>
  when that list is not empty, and \<^verbatim>\<open>Next\<close> is the tail.
\<close>

type_synonym ('k, 'v) store = "('k \<times> 'v) list"

definition NewIterator :: "('k \<Rightarrow> byte list) \<Rightarrow> ('k, 'v) store \<Rightarrow> ('k \<times> 'v) list" where
  "NewIterator kb s = sort_key (\<lambda>r. kb (fst r)) s"

definition Seek :: "('k \<Rightarrow> byte list) \<Rightarrow> byte list \<Rightarrow> ('k \<times> 'v) list \<Rightarrow> ('k \<times> 'v) list" where
  "Seek kb target it = dropWhile (\<lambda>r. kb (fst r) < target) it"

section \<open>The loaded-coin overlay\<close>

text \<open>
  \<^verbatim>\<open>loadedcoindb\<close> is written by \<^verbatim>\<open>WriteLoadedCoinIndex\<close> only, under keys
  \<^verbatim>\<open>(DB_LOADED_COINS, hash of the outpoint)\<close>; the model keys its records by that hash.
\<close>

type_synonym loadedcoindb = "(uint256, LoadedCoin) store"

definition loaded_key :: "uint256 \<Rightarrow> byte list" where
  "loaded_key h = DB_LOADED_COINS # ser_uint256 h"

text \<open>
  \<^verbatim>\<open>GetLoadedCoin\<close>: seek to the key of the hash; when the iterator is valid and the
  hash of the key found is the hash asked for, the record is copied out and the result is
  true (\<open>Some\<close>); otherwise the result is false and the output is untouched (\<open>None\<close>).
\<close>

definition GetLoadedCoin :: "loadedcoindb \<Rightarrow> uint256 \<Rightarrow> LoadedCoin option" where
  "GetLoadedCoin loadedcoins hashOutPoint =
     (case Seek loaded_key (loaded_key hashOutPoint) (NewIterator loaded_key loadedcoins) of
        [] \<Rightarrow> None
      | (k, v) # _ \<Rightarrow> if k = hashOutPoint then Some v else None)"

definition HaveLoadedCoin :: "loadedcoindb \<Rightarrow> uint256 \<Rightarrow> bool" where
  "HaveLoadedCoin loadedcoins hashOutPoint = (GetLoadedCoin loadedcoins hashOutPoint \<noteq> None)"

section \<open>The loaded-coin file\<close>

text \<open>
  Modelled from the spec: the serialisation of a \<^verbatim>\<open>LoadedCoin\<close> (\<^verbatim>\<open>coins.h\<close>) is not
  among the sources. A serialised record holds the outpoint, the persisted fields of the
  coin and the spent flag; the loaded marker of the coin is "transient", "not persisted"
  and "never serialized" (spec sections 3 and 9), so it is not part of the record, and a
  record read back has the marker clear, as a coin has until the read path sets it.
\<close>

record SerializedLoadedCoin =
  ser_outpoint :: COutPoint
  ser_txout :: CTxOut
  ser_nHeight :: int
  ser_fCoinBase :: bool
  ser_fCriticalData :: bool
  ser_fSpent :: bool

definition Serialize_LoadedCoin :: "LoadedCoin \<Rightarrow> SerializedLoadedCoin" where
  "Serialize_LoadedCoin c =
     \<lparr>ser_outpoint = loaded_out c, ser_txout = out (loaded_coin c), ser_nHeight = nHeight (loaded_coin c),
      ser_fCoinBase = fCoinBase (loaded_coin c), ser_fCriticalData = fCriticalData (loaded_coin c),
      ser_fSpent = fSpent c\<rparr>"

definition Unserialize_LoadedCoin :: "SerializedLoadedCoin \<Rightarrow> LoadedCoin" where
  "Unserialize_LoadedCoin r =
     \<lparr>loaded_out = ser_outpoint r,
      loaded_coin = \<lparr>out = ser_txout r, nHeight = ser_nHeight r, fCoinBase = ser_fCoinBase r,
                     fCriticalData = ser_fCriticalData r, fLoaded = False\<rparr>,
      fSpent = ser_fSpent r\<rparr>"

text \<open>
  Modelled from the spec: \<^verbatim>\<open>CAutoFile\<close> (\<^verbatim>\<open>streams.h\<close>) is not among the sources. The
  file format is "two version integers, then a count, then that many coin records" (spec
  sections 4.3 and 6): a file is the list of its items, a 32-bit integer or a serialised
  record; reading an item of the other kind, or past the end, throws (\<open>None\<close>). The
  file system maps a path to the file stored there.
\<close>

datatype file_item = IntItem "32 word" | CoinItem SerializedLoadedCoin

type_synonym CAutoFile = "file_item list"

type_synonym filesystem = "string \<Rightarrow> CAutoFile option"

fun read_int :: "CAutoFile \<Rightarrow> (int \<times> CAutoFile) option" where
  "read_int (IntItem w # s) = Some (sint w, s)"
| "read_int _ = None"

fun read_LoadedCoin :: "CAutoFile \<Rightarrow> (LoadedCoin \<times> CAutoFile) option" where
  "read_LoadedCoin (CoinItem r # s) = Some (Unserialize_LoadedCoin r, s)"
| "read_LoadedCoin _ = None"

text \<open>
  What the import and the export read from their environment: \<^verbatim>\<open>CLIENT_VERSION\<close>,
  whether a path can be opened for writing, the hash of an outpoint
  (\<^verbatim>\<open>COutPoint::GetHash\<close>), and whether the engine of \<^verbatim>\<open>loadedcoindb\<close> persists its
  \<open>k\<close>-th batch.
\<close>

record file_env =
  CLIENT_VERSION :: int
  can_write :: "string \<Rightarrow> bool"
  outpoint_hash :: "COutPoint \<Rightarrow> uint256"
  index_persists :: "nat \<Rightarrow> bool"

text \<open>
  \<^verbatim>\<open>WriteLoadedCoinIndex\<close> writes every record of the vector under the hash of its outpoint,
  in one batch. The engine stores the record serialised; the overlay holds it as a later
  \<^verbatim>\<open>GetValue\<close> reads it.
\<close>

definition WriteLoadedCoinIndex :: "file_env \<Rightarrow> nat \<Rightarrow> LoadedCoin list \<Rightarrow> loadedcoindb \<Rightarrow> bool \<times> loadedcoindb" where
  "WriteLoadedCoinIndex F k vLoadedCoin loadedcoins =
     (if index_persists F k
      then (True, fold (\<lambda>c s. AList.update (outpoint_hash F (loaded_out c))
                                (Unserialize_LoadedCoin (Serialize_LoadedCoin c)) s) vLoadedCoin loadedcoins)
      else (False, loadedcoins))"

text \<open>
  \<^verbatim>\<open>WriteMyLoadedCoins\<close> returns at once on an empty vector, and when the file cannot be
  opened; otherwise it writes 210000, \<^verbatim>\<open>CLIENT_VERSION\<close>, the count (an \<^verbatim>\<open>int\<close>) and the
  records.
\<close>

definition WriteMyLoadedCoins :: "file_env \<Rightarrow> filesystem \<Rightarrow> LoadedCoin list \<Rightarrow> filesystem" where
  "WriteMyLoadedCoins F fs vLoadedCoin =
     (if length vLoadedCoin = 0 then fs
      else
        let nCount = (word_of_nat (length vLoadedCoin) :: 32 word)
        in if \<not> can_write F ''my_loaded_coins.dat'' then fs
           else fs(''my_loaded_coins.dat'' \<mapsto>
                  [IntItem 210000, IntItem (word_of_int (CLIENT_VERSION F)), IntItem nCount]
                  @ map (\<lambda>c. CoinItem (Serialize_LoadedCoin c)) vLoadedCoin))"

text \<open>
  \<^verbatim>\<open>ReadMyLoadedCoins\<close> returns the records read from \<^verbatim>\<open>my_loaded_coins.dat\<close>; whatever
  was read when a read throws is returned.
\<close>

function ReadMyLoadedCoins_loop :: "int \<Rightarrow> int \<Rightarrow> CAutoFile \<Rightarrow> LoadedCoin list \<Rightarrow> LoadedCoin list" where
  "ReadMyLoadedCoins_loop i nCount filein vLoadedCoin =
     (if i < nCount
      then (case read_LoadedCoin filein of
              None \<Rightarrow> vLoadedCoin
            | Some (loadedCoin, filein') \<Rightarrow>
                ReadMyLoadedCoins_loop (i + 1) nCount filein' (vLoadedCoin @ [loadedCoin]))
      else vLoadedCoin)"
  by pat_completeness auto
termination
  by (relation "measure (\<lambda>(i, nCount, filein, vLoadedCoin). nat (nCount - i))") auto

declare ReadMyLoadedCoins_loop.simps [simp del]

definition ReadMyLoadedCoins :: "file_env \<Rightarrow> filesystem \<Rightarrow> LoadedCoin list" where
  "ReadMyLoadedCoins F fs =
     (case fs ''my_loaded_coins.dat'' of
        None \<Rightarrow> []
      | Some filein \<Rightarrow>
          (case read_int filein of
             None \<Rightarrow> []
           | Some (nVersionRequired, f1) \<Rightarrow>
               (case read_int f1 of
                  None \<Rightarrow> []
                | Some (nVersionThatWrote, f2) \<Rightarrow>
                    if nVersionRequired > CLIENT_VERSION F then []
                    else (case read_int f2 of
                            None \<Rightarrow> []
                          | Some (nCount, f3) \<Rightarrow> ReadMyLoadedCoins_loop 0 nCount f3 []))))"

text \<open>
  \<^verbatim>\<open>ReadLoadedCoins\<close> imports \<^verbatim>\<open>loaded_coins.dat\<close> into the overlay. Before record \<open>i\<close>
  is read, when \<open>i\<close> is a multiple of the batch size, the records collected so far are
  written to the index and the vector is cleared; the rest is written after the loop. A
  read that throws ends the import with false; the batches written before stay. The
  source fixes the batch size at 4000000; the loop takes it as \<open>nBatch\<close>.
\<close>

function ReadLoadedCoins_loop ::
  "file_env \<Rightarrow> int \<Rightarrow> int \<Rightarrow> int \<Rightarrow> CAutoFile \<Rightarrow> LoadedCoin list \<Rightarrow> nat \<Rightarrow> loadedcoindb \<Rightarrow> bool \<times> loadedcoindb" where
  "ReadLoadedCoins_loop F nBatch i nCount filein vLoadedCoin k loadedcoins =
     (if i < nCount
      then
        let flush = (i mod nBatch = 0);
            loadedcoins1 = (if flush then snd (WriteLoadedCoinIndex F k vLoadedCoin loadedcoins) else loadedcoins);
            vLoadedCoin1 = (if flush then [] else vLoadedCoin);
            k1 = (if flush then k + 1 else k)
        in (case read_LoadedCoin filein of
              None \<Rightarrow> (False, loadedcoins1)
            | Some (loadedCoin, filein') \<Rightarrow>
                ReadLoadedCoins_loop F nBatch (i + 1) nCount filein' (vLoadedCoin1 @ [loadedCoin]) k1 loadedcoins1)
      else (True, snd (WriteLoadedCoinIndex F k vLoadedCoin loadedcoins)))"
  by pat_completeness auto
termination
  by (relation "measure (\<lambda>(F, nBatch, i, nCount, filein, vLoadedCoin, k, loadedcoins). nat (nCount - i))") auto

declare ReadLoadedCoins_loop.simps [simp del]

definition ReadLoadedCoins_batched :: "file_env \<Rightarrow> int \<Rightarrow> filesystem \<Rightarrow> loadedcoindb \<Rightarrow> bool \<times> loadedcoindb" where
  "ReadLoadedCoins_batched F nBatch fs loadedcoins =
     (case fs ''loaded_coins.dat'' of
        None \<Rightarrow> (False, loadedcoins)
      | Some filein \<Rightarrow>
          (case read_int filein of
             None \<Rightarrow> (False, loadedcoins)
           | Some (nVersionRequired, f1) \<Rightarrow>
               (case read_int f1 of
                  None \<Rightarrow> (False, loadedcoins)
                | Some (nVersionThatWrote, f2) \<Rightarrow>
                    if nVersionRequired > CLIENT_VERSION F then (False, loadedcoins)
                    else (case read_int f2 of
                            None \<Rightarrow> (False, loadedcoins)
                          | Some (nCount, f3) \<Rightarrow> ReadLoadedCoins_loop F nBatch 0 nCount f3 [] 0 loadedcoins))))"

definition ReadLoadedCoins :: "file_env \<Rightarrow> filesystem \<Rightarrow> loadedcoindb \<Rightarrow> bool \<times> loadedcoindb" where
  "ReadLoadedCoins F fs loadedcoins = ReadLoadedCoins_batched F 4000000 fs loadedcoins"

section \<open>The chainstate store\<close>

text \<open>
  The legacy per-transaction record \<^verbatim>\<open>CCoins\<close> (the class near the end of
  \<^verbatim>\<open>txdb.cpp\<close>): a coinbase flag, the outputs (spent ones are null) and the height.
\<close>

record CCoins =
  legacy_fCoinBase :: bool
  vout :: "CTxOut list"
  legacy_nHeight :: int

text \<open>
  The keys \<^verbatim>\<open>CCoinsViewDB\<close> uses in \<^verbatim>\<open>db\<close>: \<^verbatim>\<open>DB_BEST_BLOCK\<close>, \<^verbatim>\<open>DB_HEAD_BLOCKS\<close>,
  \<^verbatim>\<open>CoinEntry(outpoint)\<close> and the legacy \<^verbatim>\<open>(DB_COINS, txid)\<close>; and the values stored
  under them. A read at a type other than the stored one fails, as a failed
  deserialisation does.
\<close>

datatype db_key = BestBlockKey | HeadBlocksKey | CoinKey COutPoint | CoinsKey uint256

datatype db_val = HashVal uint256 | HashesVal "uint256 list" | CoinVal Coin | CCoinsVal CCoins

type_synonym coinsdb = "(db_key, db_val) store"

definition Exists :: "coinsdb \<Rightarrow> db_key \<Rightarrow> bool" where
  "Exists db k = (map_of db k \<noteq> None)"

definition ReadCoin :: "coinsdb \<Rightarrow> COutPoint \<Rightarrow> Coin option" where
  "ReadCoin db outpoint =
     (case map_of db (CoinKey outpoint) of Some (CoinVal c) \<Rightarrow> Some c | _ \<Rightarrow> None)"

definition ReadHash :: "coinsdb \<Rightarrow> db_key \<Rightarrow> uint256 option" where
  "ReadHash db k = (case map_of db k of Some (HashVal h) \<Rightarrow> Some h | _ \<Rightarrow> None)"

definition ReadHashes :: "coinsdb \<Rightarrow> db_key \<Rightarrow> uint256 list option" where
  "ReadHashes db k = (case map_of db k of Some (HashesVal hs) \<Rightarrow> Some hs | _ \<Rightarrow> None)"

section \<open>The key codec\<close>

text \<open>
  Modelled from the spec: the stream classes and the integer codecs (\<^verbatim>\<open>streams.h\<close>,
  \<^verbatim>\<open>serialize.h\<close>, \<^verbatim>\<open>uint256.h\<close>) are not among the sources. A stream is the list of the
  bytes still to be read; reading past its end throws, which is the result \<open>None\<close>. A
  key is "a single discriminator byte, followed by fixed-size hash bytes, then a
  variable-length integer" (spec section 4.1): a \<^verbatim>\<open>char\<close> is one byte, a \<^verbatim>\<open>uint256\<close> is its
  32 bytes, and \<^verbatim>\<open>VARINT\<close> is the base-128 code with the continuation bit in bit 7, most
  significant group first, each group but the last stored less one.
\<close>

fun read_byte :: "byte list \<Rightarrow> (byte \<times> byte list) option" where
  "read_byte [] = None"
| "read_byte (b # s) = Some (b, s)"

definition unser_uint256 :: "byte list \<Rightarrow> uint256" where
  "unser_uint256 bs = foldr (\<lambda>b w. push_bit 8 w OR ucast b) bs 0"

definition read_uint256 :: "byte list \<Rightarrow> (uint256 \<times> byte list) option" where
  "read_uint256 s = (if length s < 32 then None else Some (unser_uint256 (take 32 s), drop 32 s))"

fun ReadVarInt_loop :: "32 word \<Rightarrow> byte list \<Rightarrow> (32 word \<times> byte list) option" where
  "ReadVarInt_loop n [] = None"
| "ReadVarInt_loop n (chData # s) =
     (if n > drop_bit 7 (- 1) then None
      else
        let n1 = push_bit 7 n OR ucast (chData AND 0x7F)
        in if chData AND 0x80 \<noteq> 0
           then (if n1 = - 1 then None else ReadVarInt_loop (n1 + 1) s)
           else Some (n1, s))"

definition ReadVarInt :: "byte list \<Rightarrow> (32 word \<times> byte list) option" where
  "ReadVarInt s = ReadVarInt_loop 0 s"

function WriteVarInt_loop :: "32 word \<Rightarrow> nat \<Rightarrow> byte list \<Rightarrow> byte list" where
  "WriteVarInt_loop n len acc =
     (let tmp = ucast (n AND 0x7F) OR (if len \<noteq> 0 then 0x80 else 0)
      in if n \<le> 0x7F then tmp # acc
         else WriteVarInt_loop (drop_bit 7 n - 1) (len + 1) (tmp # acc))"
  by pat_completeness auto
termination
proof (relation "measure (\<lambda>(n, len, acc). unat n)")
  show "wf (measure (\<lambda>(n, len, acc). unat n))" by simp
next
  fix n :: "32 word" and len :: nat and acc :: "byte list" and x
  assume "\<not> n \<le> 0x7F"
  then have big: "128 \<le> unat n" by (simp add: word_le_nat_alt not_le)
  have d: "unat (drop_bit 7 n) = unat n div 128" by (simp add: drop_bit_eq_div unat_div)
  have "1 \<le> unat (drop_bit 7 n)" using big d by simp
  then have "unat (drop_bit 7 n - 1) = unat (drop_bit 7 n) - 1"
    by (simp add: unat_sub word_le_nat_alt)
  with big d have "unat (drop_bit 7 n - 1) < unat n" by simp
  then show "((drop_bit 7 n - 1, len + 1, x # acc), (n, len, acc)) \<in> measure (\<lambda>(n, len, acc). unat n)"
    by simp
qed

definition WriteVarInt :: "32 word \<Rightarrow> byte list" where
  "WriteVarInt n = WriteVarInt_loop n 0 []"


text \<open>
  \<^verbatim>\<open>CoinEntry\<close>: the key byte and (a pointer to) the outpoint. The constructor sets the
  key byte to \<^verbatim>\<open>DB_COIN\<close>. \<^verbatim>\<open>Unserialize\<close> reads the three fields in turn; the model
  returns the entry as the call leaves it and the rest of the stream, or \<open>None\<close> for
  the rest when a read threw: the fields read before the throw stay assigned.
\<close>

record CoinEntry =
  ce_key :: byte
  ce_outpoint :: COutPoint

definition CoinEntry_new :: "COutPoint \<Rightarrow> CoinEntry" where
  "CoinEntry_new ptr = \<lparr>ce_key = DB_COIN, ce_outpoint = ptr\<rparr>"

definition Serialize :: "CoinEntry \<Rightarrow> byte list" where
  "Serialize e = ce_key e # ser_uint256 (hash (ce_outpoint e)) @ WriteVarInt (nIndex (ce_outpoint e))"

definition Unserialize :: "CoinEntry \<Rightarrow> byte list \<Rightarrow> CoinEntry \<times> byte list option" where
  "Unserialize e s =
     (case read_byte s of
        None \<Rightarrow> (e, None)
      | Some (k, s1) \<Rightarrow>
          let e1 = e\<lparr>ce_key := k\<rparr>
          in (case read_uint256 s1 of
                None \<Rightarrow> (e1, None)
              | Some (h, s2) \<Rightarrow>
                  let e2 = e1\<lparr>ce_outpoint := (ce_outpoint e1)\<lparr>hash := h\<rparr>\<rparr>
                  in (case ReadVarInt s2 of
                        None \<Rightarrow> (e2, None)
                      | Some (i, s3) \<Rightarrow> (e2\<lparr>ce_outpoint := (ce_outpoint e2)\<lparr>nIndex := i\<rparr>\<rparr>, Some s3))))"

text \<open>
  \<^verbatim>\<open>CDBIterator::GetKey\<close> decodes the key under the iterator inside a \<^verbatim>\<open>try\<close> block and
  returns false when the decoding threw. \<^verbatim>\<open>CCoinsViewDBCursor::Next\<close> caches the key
  byte so decoded in \<^verbatim>\<open>keyTmp.first\<close>, or 0 when the iterator is not valid (\<open>None\<close>) or
  the key does not decode; \<^verbatim>\<open>CCoinsViewDBCursor::Valid\<close> compares the cached byte with
  \<^verbatim>\<open>DB_COIN\<close>.
\<close>

definition GetKey :: "CoinEntry \<Rightarrow> byte list \<Rightarrow> bool \<times> CoinEntry" where
  "GetKey e slKey = (case Unserialize e slKey of (e', None) \<Rightarrow> (False, e') | (e', Some _) \<Rightarrow> (True, e'))"

definition Next_keyTmp :: "byte list option \<Rightarrow> byte \<times> COutPoint \<Rightarrow> byte \<times> COutPoint" where
  "Next_keyTmp slKey keyTmp =
     (case slKey of
        None \<Rightarrow> (0, snd keyTmp)
      | Some s \<Rightarrow>
          (case GetKey (CoinEntry_new (snd keyTmp)) s of
             (False, entry) \<Rightarrow> (0, ce_outpoint entry)
           | (True, entry) \<Rightarrow> (ce_key entry, ce_outpoint entry)))"

definition CCoinsViewDBCursor_Valid :: "byte \<times> COutPoint \<Rightarrow> bool" where
  "CCoinsViewDBCursor_Valid keyTmp = (fst keyTmp = DB_COIN)"

text \<open>
  \<^verbatim>\<open>CCoinsViewDB::Cursor\<close> makes an iterator, seeks to \<^verbatim>\<open>DB_COIN\<close> and caches the key of
  the first record. When the iterator is valid, the key is decoded into an entry built on
  \<^verbatim>\<open>keyTmp.second\<close>, the result of \<^verbatim>\<open>GetKey\<close> is dropped, and the key byte of the entry
  is stored in \<^verbatim>\<open>keyTmp.first\<close>; when it is not valid, 0 is stored. The store is taken
  here with its keys as the engine holds them, byte strings in bytewise order; the result
  is the iterator and \<^verbatim>\<open>keyTmp\<close>, and \<open>keyTmp_second\<close> is the outpoint of the new cursor.
\<close>

definition Cursor :: "(byte list, 'v) store \<Rightarrow> COutPoint \<Rightarrow> (byte list \<times> 'v) list \<times> (byte \<times> COutPoint)" where
  "Cursor rawdb keyTmp_second =
     (let pcursor = Seek (\<lambda>k. k) [DB_COIN] (NewIterator (\<lambda>k. k) rawdb)
      in case pcursor of
           [] \<Rightarrow> (pcursor, (0, keyTmp_second))
         | (slKey, _) # _ \<Rightarrow>
             (case GetKey (CoinEntry_new keyTmp_second) slKey of
                (_, entry) \<Rightarrow> (pcursor, (ce_key entry, ce_outpoint entry))))"

text \<open>The serialised form of the keys of \<^verbatim>\<open>db\<close>, which the engine orders bytewise.\<close>

fun key_bytes :: "db_key \<Rightarrow> byte list" where
  "key_bytes BestBlockKey = [DB_BEST_BLOCK]"
| "key_bytes HeadBlocksKey = [DB_HEAD_BLOCKS]"
| "key_bytes (CoinKey outpoint) = Serialize (CoinEntry_new outpoint)"
| "key_bytes (CoinsKey txid) = DB_COINS # ser_uint256 txid"

section \<open>Lookups: GetCoin, HaveCoin, GetBestBlock, GetHeadBlocks\<close>

text \<open>
  \<^verbatim>\<open>COutPoint::GetHash\<close> is \<^verbatim>\<open>SerializeHash(*this)\<close>; the hash function is not part of
  the sources and is a parameter \<open>GetHash\<close> of the model.

  \<^verbatim>\<open>GetCoin\<close> returns its boolean result and the value of the output parameter \<open>coin\<close>
  after the call.
\<close>

definition GetCoin ::
  "(COutPoint \<Rightarrow> uint256) \<Rightarrow> coinsdb \<Rightarrow> loadedcoindb \<Rightarrow> COutPoint \<Rightarrow> Coin \<Rightarrow> bool \<times> Coin" where
  "GetCoin GetHash db loadedcoins outpoint coin =
     (case ReadCoin db outpoint of
        Some c \<Rightarrow> (True, c)
      | None \<Rightarrow>
          (case GetLoadedCoin loadedcoins (GetHash outpoint) of
             Some loadedCoin \<Rightarrow> (\<not> fSpent loadedCoin, (loaded_coin loadedCoin)\<lparr>fLoaded := True\<rparr>)
           | None \<Rightarrow> (False, coin)))"

definition HaveCoin :: "(COutPoint \<Rightarrow> uint256) \<Rightarrow> coinsdb \<Rightarrow> loadedcoindb \<Rightarrow> COutPoint \<Rightarrow> bool" where
  "HaveCoin GetHash db loadedcoins outpoint =
     (if Exists db (CoinKey outpoint) then True
      else HaveLoadedCoin loadedcoins (GetHash outpoint))"

definition GetBestBlock :: "coinsdb \<Rightarrow> uint256" where
  "GetBestBlock db = (case ReadHash db BestBlockKey of None \<Rightarrow> 0 | Some hashBestChain \<Rightarrow> hashBestChain)"

definition GetHeadBlocks :: "coinsdb \<Rightarrow> uint256 list" where
  "GetHeadBlocks db = (case ReadHashes db HeadBlocksKey of None \<Rightarrow> [] | Some vhashHeadBlocks \<Rightarrow> vhashHeadBlocks)"

section \<open>Batches and the engine\<close>

text \<open>
  A \<^verbatim>\<open>CDBBatch\<close> is the list of its operations in the order they were added. The engine
  applies a batch atomically: \<^verbatim>\<open>WriteBatch\<close> either persists all of it or nothing and
  says which. Whether the engine persists its \<open>k\<close>-th batch is a parameter
  (\<open>persists k\<close>); the engine state keeps the store and the log of the batches handed to
  it.
\<close>

datatype batch_op = Write db_key db_val | Erase db_key

type_synonym CDBBatch = "batch_op list"

fun apply_op :: "batch_op \<Rightarrow> coinsdb \<Rightarrow> coinsdb" where
  "apply_op (Write k v) db = AList.update k v db"
| "apply_op (Erase k) db = AList.delete k db"

definition apply_batch :: "CDBBatch \<Rightarrow> coinsdb \<Rightarrow> coinsdb" where
  "apply_batch batch db = fold apply_op batch db"

record engine =
  disk :: coinsdb
  wlog :: "CDBBatch list"

definition WriteBatch :: "(nat \<Rightarrow> bool) \<Rightarrow> CDBBatch \<Rightarrow> engine \<Rightarrow> bool \<times> engine" where
  "WriteBatch persists batch e =
     (let ok = persists (length (wlog e))
      in (ok, \<lparr>disk = (if ok then apply_batch batch (disk e) else disk e),
               wlog = wlog e @ [batch]\<rparr>))"

text \<open>
  What \<^verbatim>\<open>BatchWrite\<close> and \<^verbatim>\<open>Upgrade\<close> read from their environment: the option
  \<^verbatim>\<open>-dbbatchsize\<close>, the option \<^verbatim>\<open>-dbcrashratio\<close>, the size \<^verbatim>\<open>CDBBatch\<close> adds to its
  estimate for an operation (\<^verbatim>\<open>dbwrapper.h\<close> is not among the sources), the engine's
  outcomes, the value \<^verbatim>\<open>rng.randrange(crash_simulate)\<close> draws after the \<open>k\<close>-th batch,
  the value of the \<open>k\<close>-th call of \<^verbatim>\<open>ShutdownRequested()\<close>, and
  \<^verbatim>\<open>CScript::IsUnspendable\<close> (\<^verbatim>\<open>script.h\<close> is not among the sources).
\<close>

record env =
  batch_size :: nat
  crash_simulate :: int
  op_size :: "batch_op \<Rightarrow> nat"
  persists :: "nat \<Rightarrow> bool"
  randrange :: "nat \<Rightarrow> nat"
  ShutdownRequested :: "nat \<Rightarrow> bool"
  IsUnspendable :: "CScript \<Rightarrow> bool"

definition SizeEstimate :: "env \<Rightarrow> CDBBatch \<Rightarrow> nat" where
  "SizeEstimate E batch = sum_list (map (op_size E) batch)"

section \<open>The commit: BatchWrite\<close>

text \<open>
  Modelled from the spec: \<^verbatim>\<open>CCoinsMap\<close> and \<^verbatim>\<open>CCoinsCacheEntry\<close> (\<^verbatim>\<open>coins.h\<close>) are not
  among the sources. A changeset maps an outpoint to a coin and its flags (spec section
  3); the model is the list of its entries in iteration order, \<^verbatim>\<open>DIRTY\<close> is bit 0 of the
  flags.
\<close>

record CCoinsCacheEntry =
  entry_coin :: Coin
  flags :: byte

definition DIRTY :: byte where "DIRTY = 1"

type_synonym CCoinsMap = "(COutPoint \<times> CCoinsCacheEntry) list"

text \<open>
  The three tests and the operation of the loop body: \<^verbatim>\<open>it->second.coin.fLoaded\<close>,
  \<^verbatim>\<open>it->second.flags & CCoinsCacheEntry::DIRTY\<close>, and the operation added for a dirty
  entry, \<^verbatim>\<open>batch.Erase(entry)\<close> when \<^verbatim>\<open>it->second.coin.IsSpent()\<close> and
  \<^verbatim>\<open>batch.Write(entry, it->second.coin)\<close> otherwise, with \<^verbatim>\<open>entry = CoinEntry(&it->first)\<close>.
\<close>

definition is_loaded :: "COutPoint \<times> CCoinsCacheEntry \<Rightarrow> bool" where
  "is_loaded x = fLoaded (entry_coin (snd x))"

definition is_dirty :: "COutPoint \<times> CCoinsCacheEntry \<Rightarrow> bool" where
  "is_dirty x = (flags (snd x) AND DIRTY \<noteq> 0)"

definition coin_op :: "COutPoint \<times> CCoinsCacheEntry \<Rightarrow> batch_op" where
  "coin_op x = (if IsSpent (entry_coin (snd x)) then Erase (CoinKey (fst x))
                else Write (CoinKey (fst x)) (CoinVal (entry_coin (snd x))))"

text \<open>
  The state of the loop over \<^verbatim>\<open>mapCoins\<close>: the engine, the batch under construction,
  the entries the iterator has passed without erasing them, and the two counters. The
  loop ends with its state, or with the engine alone when the crash simulation ends the
  process (\<^verbatim>\<open>_Exit(0)\<close>). An entry flagged loaded is passed over (\<^verbatim>\<open>it++; continue\<close>);
  any other entry is counted and erased from the map, and adds its operation to the
  batch when it is dirty; a batch whose size estimate exceeds the batch size is written
  and cleared.
\<close>

record bw_state =
  eng :: engine
  batch :: CDBBatch
  kept :: CCoinsMap
  changed :: nat
  count :: nat

fun BatchWrite_loop :: "env \<Rightarrow> CCoinsMap \<Rightarrow> bw_state \<Rightarrow> bw_state + engine" where
  "BatchWrite_loop E [] s = Inl s"
| "BatchWrite_loop E (x # rest) s =
     (if is_loaded x
      then BatchWrite_loop E rest (s\<lparr>kept := kept s @ [x]\<rparr>)
      else
        let batch1 = (if is_dirty x then batch s @ [coin_op x] else batch s);
            s1 = s\<lparr>batch := batch1,
                    changed := (if is_dirty x then changed s + 1 else changed s),
                    count := count s + 1\<rparr>
        in if SizeEstimate E batch1 > batch_size E
           then let eng1 = snd (WriteBatch (persists E) batch1 (eng s))
                in if crash_simulate E \<noteq> 0 \<and> randrange E (length (wlog eng1)) = 0
                   then Inr eng1
                   else BatchWrite_loop E rest (s1\<lparr>eng := eng1, batch := []\<rparr>)
           else BatchWrite_loop E rest s1)"

datatype assertion = TipNotNull | HeadIsNewTip

datatype bw_result =
    Returned bool engine CCoinsMap
  | AssertionFailed assertion
  | ProcessExited engine

text \<open>
  The tip the commit starts from: the best block or, when that is null and the
  head-blocks marker has two elements, the second element of the marker (a commit that
  was interrupted is being replayed).
\<close>

definition old_tip_of :: "coinsdb \<Rightarrow> uint256" where
  "old_tip_of db =
     (let old_tip = GetBestBlock db; old_heads = GetHeadBlocks db
      in if IsNull old_tip \<and> length old_heads = 2 then old_heads ! 1 else old_tip)"

definition BatchWrite :: "env \<Rightarrow> engine \<Rightarrow> CCoinsMap \<Rightarrow> uint256 \<Rightarrow> bw_result" where
  "BatchWrite E e mapCoins hashBlock =
     (if IsNull hashBlock then AssertionFailed TipNotNull
      else if IsNull (GetBestBlock (disk e)) \<and> length (GetHeadBlocks (disk e)) = 2
              \<and> GetHeadBlocks (disk e) ! 0 \<noteq> hashBlock
      then AssertionFailed HeadIsNewTip
      else
        let old_tip = old_tip_of (disk e);
            batch0 = [Erase BestBlockKey, Write HeadBlocksKey (HashesVal [hashBlock, old_tip])]
        in case BatchWrite_loop E mapCoins
                  \<lparr>eng = e, batch = batch0, kept = [], changed = 0, count = 0\<rparr> of
             Inr e' \<Rightarrow> ProcessExited e'
           | Inl s \<Rightarrow>
               let (ret, e') = WriteBatch (persists E)
                                 (batch s @ [Erase HeadBlocksKey, Write BestBlockKey (HashVal hashBlock)])
                                 (eng s)
               in Returned ret e' (kept s))"

section \<open>The migration: Upgrade\<close>

text \<open>
  The operations \<^verbatim>\<open>Upgrade\<close> adds to its batch for one legacy record: for every output
  \<open>i\<close> that is neither null nor unspendable a write of the coin
  \<^verbatim>\<open>Coin(vout[i], nHeight, fCoinBase, false, false)\<close> under \<^verbatim>\<open>CoinEntry\<close> of the outpoint
  \<open>(txid, i)\<close> (the index is stored in the \<^verbatim>\<open>uint32_t\<close> field \<^verbatim>\<open>n\<close>), and then the erasure
  of the legacy key.
\<close>

fun vout_ops :: "env \<Rightarrow> uint256 \<Rightarrow> CCoins \<Rightarrow> nat \<Rightarrow> CTxOut list \<Rightarrow> CDBBatch" where
  "vout_ops E txid old_coins i [] = []"
| "vout_ops E txid old_coins i (txout # rest) =
     (if \<not> CTxOut_IsNull txout \<and> \<not> IsUnspendable E (scriptPubKey txout)
      then [Write (CoinKey \<lparr>hash = txid, nIndex = word_of_nat i\<rparr>)
              (CoinVal \<lparr>out = txout, nHeight = legacy_nHeight old_coins,
                        fCoinBase = legacy_fCoinBase old_coins,
                        fCriticalData = False, fLoaded = False\<rparr>)]
      else [])
     @ vout_ops E txid old_coins (i + 1) rest"

definition record_ops :: "env \<Rightarrow> uint256 \<Rightarrow> CCoins \<Rightarrow> CDBBatch" where
  "record_ops E txid old_coins = vout_ops E txid old_coins 0 (vout old_coins) @ [Erase (CoinsKey txid)]"

text \<open>
  The cursor of \<^verbatim>\<open>Upgrade\<close>: a new iterator, positioned by
  \<^verbatim>\<open>Seek(std::make_pair(DB_COINS, uint256()))\<close>.
\<close>

definition legacy_cursor :: "coinsdb \<Rightarrow> (db_key \<times> db_val) list" where
  "legacy_cursor db = Seek key_bytes (DB_COINS # ser_uint256 0) (NewIterator key_bytes db)"

text \<open>
  The loop of \<^verbatim>\<open>Upgrade\<close> over the cursor, with the engine, the batch and the number of
  calls of \<^verbatim>\<open>ShutdownRequested()\<close> made so far. It ends when the cursor is no longer
  valid, when shutdown is requested, at a key that is not a legacy key, or (the first
  component of the result is then true) at a legacy record whose value does not parse:
  \<^verbatim>\<open>Upgrade\<close> then returns \<^verbatim>\<open>error(...)\<close>, which is false, at once. A batch whose size
  estimate exceeds \<^verbatim>\<open>1 << 24\<close> is written and cleared. \<^verbatim>\<open>CompactRange\<close> is a hint to the
  engine and the progress reports go to the user interface; neither changes the
  store, and neither is modelled.
\<close>

fun Upgrade_loop ::
  "env \<Rightarrow> (db_key \<times> db_val) list \<Rightarrow> engine \<Rightarrow> CDBBatch \<Rightarrow> nat \<Rightarrow> bool \<times> engine \<times> CDBBatch \<times> nat" where
  "Upgrade_loop E [] e b np = (False, e, b, np)"
| "Upgrade_loop E ((k, v) # pcursor) e b np =
     (if ShutdownRequested E np then (False, e, b, np + 1)
      else
        (case k of
           CoinsKey txid \<Rightarrow>
             (case v of
                CCoinsVal old_coins \<Rightarrow>
                  let b1 = b @ record_ops E txid old_coins
                  in if SizeEstimate E b1 > 2 ^ 24
                     then Upgrade_loop E pcursor (snd (WriteBatch (persists E) b1 e)) [] (np + 1)
                     else Upgrade_loop E pcursor e b1 (np + 1)
              | _ \<Rightarrow> (True, e, b, np + 1))
         | _ \<Rightarrow> (False, e, b, np + 1)))"

text \<open>
  \<^verbatim>\<open>Upgrade\<close> returns true at once when the cursor is not valid after the seek. After the
  loop the batch is written, \<^verbatim>\<open>ShutdownRequested()\<close> is called for the log line and once
  more for the result.
\<close>

definition Upgrade :: "env \<Rightarrow> engine \<Rightarrow> bool \<times> engine" where
  "Upgrade E e =
     (let pcursor = legacy_cursor (disk e)
      in if pcursor = [] then (True, e)
         else (case Upgrade_loop E pcursor e [] 0 of
                 (True, e1, b, np) \<Rightarrow> (False, e1)
               | (False, e1, b, np) \<Rightarrow>
                   (\<not> ShutdownRequested E (np + 1), snd (WriteBatch (persists E) b e1))))"

section \<open>Notions used to state the properties of the migration\<close>

text \<open>
  A legacy key is a key \<^verbatim>\<open>(DB_COINS, txid)\<close>; a legacy record is a legacy key with a
  value that parses as \<^verbatim>\<open>CCoins\<close>. \<open>cursor_ops\<close> are the operations the records under
  a cursor contribute. An output is spendable when it is neither null nor unspendable;
  \<open>legacy_outputs\<close> counts the spendable outputs of the legacy records of a store, and
  \<open>upgraded_coin\<close> is the coin written for an output. \<open>writes\<close> and \<open>erases\<close> are the
  pairs written and the keys erased by a batch.
\<close>

fun is_legacy_key :: "db_key \<Rightarrow> bool" where
  "is_legacy_key (CoinsKey _) = True"
| "is_legacy_key _ = False"

fun is_legacy_record :: "db_key \<times> db_val \<Rightarrow> bool" where
  "is_legacy_record (CoinsKey _, CCoinsVal _) = True"
| "is_legacy_record _ = False"

fun entry_ops :: "env \<Rightarrow> db_key \<times> db_val \<Rightarrow> CDBBatch" where
  "entry_ops E (CoinsKey txid, CCoinsVal old_coins) = record_ops E txid old_coins"
| "entry_ops E _ = []"

definition cursor_ops :: "env \<Rightarrow> (db_key \<times> db_val) list \<Rightarrow> CDBBatch" where
  "cursor_ops E pcursor = concat (map (entry_ops E) pcursor)"

definition spendable :: "env \<Rightarrow> CTxOut \<Rightarrow> bool" where
  "spendable E txout = (\<not> CTxOut_IsNull txout \<and> \<not> IsUnspendable E (scriptPubKey txout))"

definition upgraded_coin :: "CCoins \<Rightarrow> CTxOut \<Rightarrow> Coin" where
  "upgraded_coin old_coins txout =
     \<lparr>out = txout, nHeight = legacy_nHeight old_coins, fCoinBase = legacy_fCoinBase old_coins,
      fCriticalData = False, fLoaded = False\<rparr>"

fun spendable_outputs :: "env \<Rightarrow> db_key \<times> db_val \<Rightarrow> nat" where
  "spendable_outputs E (CoinsKey txid, CCoinsVal old_coins) = length (filter (spendable E) (vout old_coins))"
| "spendable_outputs E _ = 0"

definition legacy_outputs :: "env \<Rightarrow> coinsdb \<Rightarrow> nat" where
  "legacy_outputs E db = sum_list (map (spendable_outputs E) db)"

fun writes :: "CDBBatch \<Rightarrow> (db_key \<times> db_val) list" where
  "writes [] = []"
| "writes (Write k v # ops) = (k, v) # writes ops"
| "writes (Erase k # ops) = writes ops"

fun erases :: "CDBBatch \<Rightarrow> db_key list" where
  "erases [] = []"
| "erases (Write k v # ops) = erases ops"
| "erases (Erase k # ops) = k # erases ops"

section \<open>Notions used to state the properties of the commit\<close>

text \<open>
  The coin operations a changeset contributes to the batches: one per entry that is not
  flagged loaded and is dirty.
\<close>

definition coin_ops :: "CCoinsMap \<Rightarrow> CDBBatch" where
  "coin_ops m = map coin_op (filter (\<lambda>x. \<not> is_loaded x \<and> is_dirty x) m)"

text \<open>
  The store after the engine was handed a list of batches, the first of them as its
  \<open>i\<close>-th batch: every state a crash between two batches can leave on disk is
  \<open>run_batches\<close> of a prefix.
\<close>

fun run_batches :: "(nat \<Rightarrow> bool) \<Rightarrow> nat \<Rightarrow> CDBBatch list \<Rightarrow> coinsdb \<Rightarrow> coinsdb" where
  "run_batches P i [] db = db"
| "run_batches P i (b # bs) db = run_batches P (Suc i) bs (if P i then apply_batch b db else db)"

text \<open>
  Invariant I1 (spec section 3): steady state is best-block key present and head-blocks
  key absent; the transitional state is head-blocks key present with exactly two
  entries and best-block key absent.
\<close>

definition steady :: "coinsdb \<Rightarrow> bool" where
  "steady db = (Exists db BestBlockKey \<and> \<not> Exists db HeadBlocksKey)"

definition transitional :: "coinsdb \<Rightarrow> bool" where
  "transitional db =
     (\<not> Exists db BestBlockKey
      \<and> (case ReadHashes db HeadBlocksKey of Some hs \<Rightarrow> length hs = 2 | None \<Rightarrow> False))"

definition I1 :: "coinsdb \<Rightarrow> bool" where
  "I1 db = (steady db \<or> transitional db)"

text \<open>The values under the two tip keys, and what one operation does to them.\<close>

definition tipview :: "coinsdb \<Rightarrow> db_val option \<times> db_val option" where
  "tipview db = (map_of db BestBlockKey, map_of db HeadBlocksKey)"

fun tip_step :: "batch_op \<Rightarrow> db_val option \<times> db_val option \<Rightarrow> db_val option \<times> db_val option" where
  "tip_step (Write k v) (b, h) =
     (if k = BestBlockKey then (Some v, h) else if k = HeadBlocksKey then (b, Some v) else (b, h))"
| "tip_step (Erase k) (b, h) =
     (if k = BestBlockKey then (None, h) else if k = HeadBlocksKey then (b, None) else (b, h))"

fun is_coin_op :: "batch_op \<Rightarrow> bool" where
  "is_coin_op (Write (CoinKey _) _) = True"
| "is_coin_op (Erase (CoinKey _)) = True"
| "is_coin_op _ = False"

text \<open>
  The batches a call handed to the engine, the two operations that open the first batch
  and the two that close the last one.
\<close>

definition new_batches :: "engine \<Rightarrow> engine \<Rightarrow> CDBBatch list" where
  "new_batches e e' = drop (length (wlog e)) (wlog e')"

definition marker :: "uint256 \<Rightarrow> uint256 \<Rightarrow> CDBBatch" where
  "marker new_tip old_tip = [Erase BestBlockKey, Write HeadBlocksKey (HashesVal [new_tip, old_tip])]"

definition final_ops :: "uint256 \<Rightarrow> CDBBatch" where
  "final_ops new_tip = [Erase HeadBlocksKey, Write BestBlockKey (HashVal new_tip)]"

text \<open>A batch keeps I1 when applying it to a store that satisfies I1 gives one that does.\<close>

definition keeps_I1 :: "CDBBatch \<Rightarrow> bool" where
  "keeps_I1 b = (\<forall>d. I1 d \<longrightarrow> I1 (apply_batch b d))"

section \<open>Example inputs\<close>

text \<open>
  A small configuration on which the model is run: every operation counts 1 towards the
  size estimate and the batch size is 2, so that the third operation forces a partial
  batch; the engine persists every batch; the store is in steady state at tip 3. The
  changeset has a dirty unspent entry, a dirty spent entry, an entry flagged loaded and a
  clean entry.
\<close>

definition ex_env :: env where
  "ex_env = \<lparr>batch_size = 2, crash_simulate = 0, op_size = (\<lambda>_. 1), persists = (\<lambda>_. True),
              randrange = (\<lambda>_. 1), ShutdownRequested = (\<lambda>_. False),
              IsUnspendable = (\<lambda>script. script \<noteq> [] \<and> hd script = 0x6a)\<rparr>"

definition ex_engine :: engine where
  "ex_engine = \<lparr>disk = [(BestBlockKey, HashVal 3)], wlog = []\<rparr>"

definition ex_coin :: "int \<Rightarrow> bool \<Rightarrow> Coin" where
  "ex_coin v l = \<lparr>out = \<lparr>nValue = v, scriptPubKey = []\<rparr>, nHeight = 1, fCoinBase = False,
                   fCriticalData = False, fLoaded = l\<rparr>"

definition ex_changeset :: CCoinsMap where
  "ex_changeset =
     [(\<lparr>hash = 1, nIndex = 0\<rparr>, \<lparr>entry_coin = ex_coin 50 False, flags = 1\<rparr>),
      (\<lparr>hash = 2, nIndex = 0\<rparr>, \<lparr>entry_coin = ex_coin (- 1) False, flags = 1\<rparr>),
      (\<lparr>hash = 3, nIndex = 0\<rparr>, \<lparr>entry_coin = ex_coin 20 True, flags = 1\<rparr>),
      (\<lparr>hash = 4, nIndex = 0\<rparr>, \<lparr>entry_coin = ex_coin 30 False, flags = 0\<rparr>)]"

definition ex_file_env :: file_env where
  "ex_file_env = \<lparr>CLIENT_VERSION = 210000, can_write = (\<lambda>_. True), outpoint_hash = hash,
                   index_persists = (\<lambda>_. True)\<rparr>"

definition ex_loaded :: "uint256 \<Rightarrow> bool \<Rightarrow> LoadedCoin" where
  "ex_loaded h s = \<lparr>loaded_out = \<lparr>hash = h, nIndex = 0\<rparr>, loaded_coin = ex_coin 50 False, fSpent = s\<rparr>"

definition ex_legacy_engine :: engine where
  "ex_legacy_engine =
     \<lparr>disk = [(BestBlockKey, HashVal 3),
              (CoinsKey 2, CCoinsVal \<lparr>legacy_fCoinBase = False,
                  vout = [\<lparr>nValue = 5, scriptPubKey = [1]\<rparr>, \<lparr>nValue = - 1, scriptPubKey = []\<rparr>,
                          \<lparr>nValue = 7, scriptPubKey = [0x6a]\<rparr>, \<lparr>nValue = 8, scriptPubKey = [2]\<rparr>],
                  legacy_nHeight = 10\<rparr>),
              (CoinsKey 1, CCoinsVal \<lparr>legacy_fCoinBase = True,
                  vout = [\<lparr>nValue = 50, scriptPubKey = [3]\<rparr>], legacy_nHeight = 11\<rparr>)],
      wlog = []\<rparr>"

text \<open>A store that holds a coin record next to a legacy record, as a resumed migration finds it.\<close>

definition ex_mixed_engine :: engine where
  "ex_mixed_engine =
     \<lparr>disk = [(BestBlockKey, HashVal 3),
              (CoinKey \<lparr>hash = 9, nIndex = 0\<rparr>, CoinVal (ex_coin 50 False)),
              (CoinsKey 1, CCoinsVal \<lparr>legacy_fCoinBase = True,
                  vout = [\<lparr>nValue = 50, scriptPubKey = [3]\<rparr>], legacy_nHeight = 11\<rparr>)],
      wlog = []\<rparr>"

section \<open>Helper lemmas: the iterator\<close>

lemma ser_uint256_inj: "ser_uint256 a = ser_uint256 b \<Longrightarrow> a = b"
proof (rule bit_word_eqI)
  fix k :: nat
  assume eq: "ser_uint256 a = ser_uint256 b" and "k < LENGTH(256)"
  then have k: "k < 256" by simp
  have "\<forall>i \<in> set [0..<32]. (ucast (drop_bit (8 * i) a) :: byte) = ucast (drop_bit (8 * i) b)"
    using eq unfolding ser_uint256_def by (simp only: map_eq_conv)
  moreover have "k div 8 \<in> set [0..<32]" using k by auto
  ultimately have "(ucast (drop_bit (8 * (k div 8)) a) :: byte) = ucast (drop_bit (8 * (k div 8)) b)"
    by blast
  then have "bit (ucast (drop_bit (8 * (k div 8)) a) :: byte) (k mod 8)
           = bit (ucast (drop_bit (8 * (k div 8)) b) :: byte) (k mod 8)"
    by simp
  then show "bit a k = bit b k"
    by (simp add: bit_ucast_iff bit_drop_bit_eq)
qed

lemma dropWhile_sorted_filter:
  "sorted (map f xs) \<Longrightarrow> dropWhile (\<lambda>x. f x < (t::'b::linorder)) xs = filter (\<lambda>x. t \<le> f x) xs"
proof (induction xs)
  case Nil
  then show ?case by simp
next
  case (Cons x xs)
  show ?case
  proof (cases "f x < t")
    case True
    with Cons show ?thesis by simp
  next
    case False
    with Cons.prems have "\<forall>y \<in> set xs. t \<le> f y" by auto
    then have "filter (\<lambda>x. t \<le> f x) xs = xs" by (simp add: filter_id_conv)
    with False show ?thesis by simp
  qed
qed

lemma hd_sorted_filter_le:
  assumes "sorted (map f xs)" and "x \<in> set xs" and "(t::'b::linorder) \<le> f x"
  shows "filter (\<lambda>y. t \<le> f y) xs \<noteq> [] \<and> f (hd (filter (\<lambda>y. t \<le> f y) xs)) \<le> f x
         \<and> t \<le> f (hd (filter (\<lambda>y. t \<le> f y) xs)) \<and> hd (filter (\<lambda>y. t \<le> f y) xs) \<in> set xs"
proof -
  let ?ys = "filter (\<lambda>y. t \<le> f y) xs"
  have mem: "x \<in> set ?ys" using assms by simp
  have ne: "?ys \<noteq> []" using assms(2,3) by (auto simp: filter_empty_conv)
  have srt: "sorted (map f ?ys)" using assms(1) by (simp add: sorted_filter)
  obtain y ys where ys: "?ys = y # ys" using ne by (cases ?ys) auto
  have "y \<in> set ?ys" using ys by simp
  then have y: "y \<in> set xs" "t \<le> f y" by auto
  have "f y \<le> f x" using srt mem unfolding ys by auto
  with ne y ys show ?thesis by simp
qed

lemma GetLoadedCoin_map_of:
  assumes "distinct (map fst loadedcoins)"
  shows "GetLoadedCoin loadedcoins h = map_of loadedcoins h"
proof -
  let ?f = "\<lambda>r::uint256 \<times> LoadedCoin. loaded_key (fst r)"
  let ?s = "sort_key ?f loadedcoins"
  let ?ys = "filter (\<lambda>r. loaded_key h \<le> ?f r) ?s"
  have srt: "sorted (map ?f ?s)" by simp
  have seek: "Seek loaded_key (loaded_key h) (NewIterator loaded_key loadedcoins) = ?ys"
    unfolding Seek_def NewIterator_def using dropWhile_sorted_filter [OF srt] by simp
  have inj: "\<And>a b. loaded_key a = loaded_key b \<Longrightarrow> a = b"
    by (simp add: loaded_key_def ser_uint256_inj)
  show ?thesis
  proof (cases "map_of loadedcoins h")
    case None
    then have nin: "h \<notin> fst ` set loadedcoins" by (simp add: map_of_eq_None_iff)
    have "\<forall>r \<in> set ?ys. fst r \<noteq> h" using nin by force
    then have "(case ?ys of [] \<Rightarrow> None | (k, v) # _ \<Rightarrow> if k = h then Some v else None) = None"
      by (cases ?ys) (auto split: prod.splits)
    with None seek show ?thesis by (simp add: GetLoadedCoin_def)
  next
    case (Some v)
    then have mem: "(h, v) \<in> set ?s" by (simp add: map_of_SomeD)
    from hd_sorted_filter_le [OF srt mem, of "loaded_key h"]
    have ne: "?ys \<noteq> []" and le: "?f (hd ?ys) \<le> loaded_key h"
      and ge: "loaded_key h \<le> ?f (hd ?ys)" and hm: "hd ?ys \<in> set ?s"
      by simp_all
    from le ge have "fst (hd ?ys) = h" using inj by (simp add: order_antisym)
    moreover from hm have "hd ?ys \<in> set loadedcoins" by simp
    ultimately have "hd ?ys = (h, v)"
      using assms Some by (metis map_of_is_SomeI option.inject prod.collapse)
    then have "(case ?ys of [] \<Rightarrow> None | (k, v) # _ \<Rightarrow> if k = h then Some v else None) = Some v"
      using ne by (cases ?ys) auto
    with Some seek show ?thesis by (simp add: GetLoadedCoin_def)
  qed
qed

section \<open>Helper lemmas: the key codec\<close>

lemma Unserialize_fails_iff:
  "snd (Unserialize e s) = None \<longleftrightarrow> length s < 33 \<or> ReadVarInt (drop 33 s) = None"
  by (cases s) (auto simp: Unserialize_def read_uint256_def Let_def split: option.splits)

lemma Unserialize_key:
  "snd (Unserialize e s) \<noteq> None \<Longrightarrow> ce_key (fst (Unserialize e s)) = hd s"
  by (cases s) (auto simp: Unserialize_def read_uint256_def Let_def split: option.splits)

lemma ReadVarInt_loop_append:
  "ReadVarInt_loop n s = Some (i, r) \<Longrightarrow> ReadVarInt_loop n (s @ t) = Some (i, r @ t)"
proof (induction n s rule: ReadVarInt_loop.induct)
  case (1 n)
  then show ?case by simp
next
  case (2 n chData s)
  then show ?case by (auto simp: Let_def split: if_splits)
qed

lemma Unserialize_append:
  "Unserialize e s = (e', Some r) \<Longrightarrow> Unserialize e (s @ t) = (e', Some (r @ t))"
  by (cases s)
     (auto simp: Unserialize_def read_uint256_def ReadVarInt_def Let_def ReadVarInt_loop_append
           split: option.splits if_splits)

lemma GetKey_key:
  "ce_key (snd (GetKey (CoinEntry_new p) s)) = (if s = [] then DB_COIN else hd s)"
  by (cases s) (auto simp: GetKey_def CoinEntry_new_def Unserialize_def read_uint256_def Let_def
      split: option.splits prod.splits)

lemma Valid_Cursor_iff:
  "CCoinsViewDBCursor_Valid (snd (Cursor rawdb p))
     \<longleftrightarrow> (case Seek (\<lambda>k. k) [DB_COIN] (NewIterator (\<lambda>k. k) rawdb) of
            [] \<Rightarrow> False
          | (slKey, _) # _ \<Rightarrow> hd slKey = DB_COIN)"
proof (cases "Seek (\<lambda>k. k) [DB_COIN] (NewIterator (\<lambda>k. k) rawdb)")
  case Nil
  then show ?thesis
    by (simp add: Cursor_def CCoinsViewDBCursor_Valid_def DB_COIN_def)
next
  case (Cons r rest)
  obtain slKey v where r: "r = (slKey, v)" by (cases r)
  have "\<not> fst (hd (Seek (\<lambda>k. k) [DB_COIN] (NewIterator (\<lambda>k. k) rawdb))) < [DB_COIN]"
    using Cons hd_dropWhile [of "\<lambda>r. fst r < [DB_COIN]" "NewIterator (\<lambda>k. k) rawdb"]
    by (simp add: Seek_def)
  then have ne: "slKey \<noteq> []" using Cons r by auto
  have "fst (snd (Cursor rawdb p)) = ce_key (snd (GetKey (CoinEntry_new p) slKey))"
    using Cons r by (simp add: Cursor_def split: prod.splits)
  then show ?thesis
    using Cons r ne by (simp add: CCoinsViewDBCursor_Valid_def GetKey_key)
qed

lemma Valid_Next_iff:
  "CCoinsViewDBCursor_Valid (Next_keyTmp (Some s) keyTmp)
     \<longleftrightarrow> snd (Unserialize (CoinEntry_new (snd keyTmp)) s) \<noteq> None \<and> hd s = DB_COIN"
  by (cases s) (auto simp: CCoinsViewDBCursor_Valid_def Next_keyTmp_def GetKey_def DB_COIN_def
      Unserialize_def read_uint256_def Let_def split: option.splits prod.splits bool.splits)

section \<open>Helper lemmas: the loaded-coin file\<close>

lemma update_fresh: "k \<notin> fst ` set s \<Longrightarrow> AList.update k v s = s @ [(k, v)]"
  by (induction s) auto

lemma fold_update_distinct:
  "distinct (map key v) \<Longrightarrow> \<forall>c \<in> set v. key c \<notin> fst ` set s \<Longrightarrow>
     fold (\<lambda>c s. AList.update (key c) (val c) s) v s = s @ map (\<lambda>c. (key c, val c)) v"
proof (induction v arbitrary: s)
  case Nil
  then show ?case by simp
next
  case (Cons c v)
  have u: "AList.update (key c) (val c) s = s @ [(key c, val c)]"
    using Cons.prems(2) by (simp add: update_fresh)
  have "\<forall>c' \<in> set v. key c' \<notin> fst ` set (s @ [(key c, val c)])"
    using Cons.prems by (fastforce simp: image_iff)
  with Cons.IH [of "s @ [(key c, val c)]"] Cons.prems(1) u show ?case by simp
qed

lemma Unserialize_Serialize_LoadedCoin:
  "Unserialize_LoadedCoin (Serialize_LoadedCoin c) = c\<lparr>loaded_coin := (loaded_coin c)\<lparr>fLoaded := False\<rparr>\<rparr>"
  by (simp add: Unserialize_LoadedCoin_def Serialize_LoadedCoin_def)

lemma Serialize_Unserialize_LoadedCoin:
  "Serialize_LoadedCoin (Unserialize_LoadedCoin r) = r"
  by (simp add: Unserialize_LoadedCoin_def Serialize_LoadedCoin_def)

lemma ReadMyLoadedCoins_loop_all:
  "ReadMyLoadedCoins_loop (int i) (int (i + length rest)) (map CoinItem rest) acc
     = acc @ map Unserialize_LoadedCoin rest"
proof (induction rest arbitrary: i acc)
  case Nil
  show ?case by (subst ReadMyLoadedCoins_loop.simps) simp
next
  case (Cons r rest)
  have "ReadMyLoadedCoins_loop (int i) (int (i + length (r # rest))) (map CoinItem (r # rest)) acc
        = ReadMyLoadedCoins_loop (int (Suc i)) (int (Suc i + length rest)) (map CoinItem rest)
            (acc @ [Unserialize_LoadedCoin r])"
    by (subst ReadMyLoadedCoins_loop.simps) (simp add: add.commute)
  with Cons.IH [of "Suc i" "acc @ [Unserialize_LoadedCoin r]"] show ?case by simp
qed

lemma ReadLoadedCoins_loop_all:
  assumes "\<forall>j. index_persists F j"
  shows "ReadLoadedCoins_loop F nBatch (int i) (int (i + length rest)) (map CoinItem rest) v k ov
         = (True, fold (\<lambda>c s. AList.update (outpoint_hash F (loaded_out c))
                                 (Unserialize_LoadedCoin (Serialize_LoadedCoin c)) s)
                    (v @ map Unserialize_LoadedCoin rest) ov)"
proof (induction rest arbitrary: i v k ov)
  case Nil
  show ?case using assms by (subst ReadLoadedCoins_loop.simps) (simp add: WriteLoadedCoinIndex_def)
next
  case (Cons r rest)
  let ?upd = "\<lambda>c s. AList.update (outpoint_hash F (loaded_out c))
                       (Unserialize_LoadedCoin (Serialize_LoadedCoin c)) s"
  let ?c = "Unserialize_LoadedCoin r"
  show ?case
  proof (cases "int i mod nBatch = 0")
    case True
    have "ReadLoadedCoins_loop F nBatch (int i) (int (i + length (r # rest))) (map CoinItem (r # rest)) v k ov
          = ReadLoadedCoins_loop F nBatch (int (Suc i)) (int (Suc i + length rest)) (map CoinItem rest)
              [?c] (k + 1) (fold ?upd v ov)"
      using True assms by (subst ReadLoadedCoins_loop.simps) (simp add: add.commute WriteLoadedCoinIndex_def Let_def)
    with Cons.IH [of "Suc i" "[?c]" "k + 1" "fold ?upd v ov"] show ?thesis by simp
  next
    case False
    have "ReadLoadedCoins_loop F nBatch (int i) (int (i + length (r # rest))) (map CoinItem (r # rest)) v k ov
          = ReadLoadedCoins_loop F nBatch (int (Suc i)) (int (Suc i + length rest)) (map CoinItem rest)
              (v @ [?c]) k ov"
      using False by (subst ReadLoadedCoins_loop.simps) (simp add: add.commute Let_def)
    with Cons.IH [of "Suc i" "v @ [?c]" k ov] show ?thesis by simp
  qed
qed

lemma sint_count: "n < 2 ^ 31 \<Longrightarrow> sint (word_of_nat n :: 32 word) = int n"
  by (simp add: signed_of_nat signed_take_bit_int_eq_self)

lemma exported_file:
  assumes "vLoadedCoin \<noteq> []" and "can_write F ''my_loaded_coins.dat''"
  shows "WriteMyLoadedCoins F fs vLoadedCoin ''my_loaded_coins.dat''
         = Some ([IntItem 210000, IntItem (word_of_int (CLIENT_VERSION F)),
                  IntItem (word_of_nat (length vLoadedCoin))]
                 @ map CoinItem (map Serialize_LoadedCoin vLoadedCoin))"
  using assms by (simp add: WriteMyLoadedCoins_def Let_def)

section \<open>Helper lemmas: the commit\<close>


lemma tipview_apply_op: "tipview (apply_op op db) = tip_step op (tipview db)"
  by (cases op) (auto simp: tipview_def update_conv' delete_conv')

lemma tipview_apply_batch: "tipview (apply_batch b db) = fold tip_step b (tipview db)"
  unfolding apply_batch_def
  by (induction b arbitrary: db) (simp_all add: tipview_apply_op)

lemma tip_step_coin_op: "is_coin_op op \<Longrightarrow> tip_step op t = t"
  by (cases op; cases t) (auto elim: is_coin_op.elims)

lemma fold_tip_step_coin_ops: "\<forall>op \<in> set b. is_coin_op op \<Longrightarrow> fold tip_step b t = t"
  by (induction b arbitrary: t) (simp_all add: tip_step_coin_op)

lemma is_coin_op_coin_op: "is_coin_op (coin_op x)"
  by (simp add: coin_op_def)

lemma coin_ops_are_coin_ops: "\<forall>op \<in> set (coin_ops m). is_coin_op op"
  by (auto simp: coin_ops_def is_coin_op_coin_op)

lemma coin_ops_Cons:
  "coin_ops (x # m) = (if \<not> is_loaded x \<and> is_dirty x then [coin_op x] else []) @ coin_ops m"
  by (simp add: coin_ops_def)

lemma run_batches_append:
  "run_batches P i (xs @ ys) db = run_batches P (i + length xs) ys (run_batches P i xs db)"
  by (induction xs arbitrary: i db) simp_all

lemma WriteBatch_wlog: "wlog (snd (WriteBatch P b e)) = wlog e @ [b]"
  by (simp add: WriteBatch_def Let_def)

lemma WriteBatch_disk:
  "disk (snd (WriteBatch P b e)) = run_batches P (length (wlog e)) [b] (disk e)"
  by (simp add: WriteBatch_def Let_def)

lemma WriteBatch_fst: "fst (WriteBatch P b e) = P (length (wlog e))"
  by (simp add: WriteBatch_def Let_def)

lemma loop_structure:
  "BatchWrite_loop E todo s = Inl s' \<Longrightarrow>
     \<exists>chunks. wlog (eng s') = wlog (eng s) @ chunks
       \<and> concat chunks @ batch s' = batch s @ coin_ops todo
       \<and> (chunks \<noteq> [] \<longrightarrow> take (length (batch s)) (hd chunks) = batch s)
       \<and> disk (eng s') = run_batches (persists E) (length (wlog (eng s))) chunks (disk (eng s))
       \<and> kept s' = kept s @ filter is_loaded todo"
proof (induction todo arbitrary: s)
  case Nil
  then show ?case by (simp add: coin_ops_def)
next
  case (Cons x todo)
  show ?case
  proof (cases "is_loaded x")
    case True
    with Cons.prems have "BatchWrite_loop E todo (s\<lparr>kept := kept s @ [x]\<rparr>) = Inl s'"
      by simp
    from Cons.IH [OF this] True show ?thesis
      by (simp add: coin_ops_Cons)
  next
    case False
    define batch1 where "batch1 = (if is_dirty x then batch s @ [coin_op x] else batch s)"
    define s1 where "s1 = s\<lparr>batch := batch1, changed := (if is_dirty x then changed s + 1 else changed s), count := count s + 1\<rparr>"
    have b1: "batch1 = batch s @ (if \<not> is_loaded x \<and> is_dirty x then [coin_op x] else [])"
      using False by (simp add: batch1_def)
    show ?thesis
    proof (cases "SizeEstimate E batch1 > batch_size E")
      case flush: True
      define eng1 where "eng1 = snd (WriteBatch (persists E) batch1 (eng s))"
      have run: "BatchWrite_loop E todo (s1\<lparr>eng := eng1, batch := []\<rparr>) = Inl s'"
        using Cons.prems False flush
        by (simp add: Let_def batch1_def s1_def eng1_def split: if_splits)
      from Cons.IH [OF run] obtain chunks where
        c: "wlog (eng s') = wlog eng1 @ chunks"
           "concat chunks @ batch s' = coin_ops todo"
           "disk (eng s') = run_batches (persists E) (length (wlog eng1)) chunks (disk eng1)"
           "kept s' = kept s @ filter is_loaded todo"
        by (auto simp: s1_def)
      have "wlog (eng s') = wlog (eng s) @ (batch1 # chunks)"
        using c(1) by (simp add: eng1_def WriteBatch_wlog)
      moreover have "concat (batch1 # chunks) @ batch s' = batch s @ coin_ops (x # todo)"
        using c(2) b1 by (simp add: coin_ops_Cons)
      moreover have "take (length (batch s)) (hd (batch1 # chunks)) = batch s"
        using b1 by simp
      moreover have "disk (eng s') = run_batches (persists E) (length (wlog (eng s))) (batch1 # chunks) (disk (eng s))"
        using c(3) by (simp add: eng1_def WriteBatch_wlog WriteBatch_disk)
      moreover have "kept s' = kept s @ filter is_loaded (x # todo)"
        using c(4) False by simp
      ultimately show ?thesis by blast
    next
      case noflush: False
      have run: "BatchWrite_loop E todo s1 = Inl s'"
        using Cons.prems False noflush
        by (simp add: Let_def batch1_def s1_def split: if_splits)
      from Cons.IH [OF run] obtain chunks where
        c: "wlog (eng s') = wlog (eng s) @ chunks"
           "concat chunks @ batch s' = batch1 @ coin_ops todo"
           "chunks \<noteq> [] \<longrightarrow> take (length batch1) (hd chunks) = batch1"
           "disk (eng s') = run_batches (persists E) (length (wlog (eng s))) chunks (disk (eng s))"
           "kept s' = kept s @ filter is_loaded todo"
        by (auto simp: s1_def)
      have "concat chunks @ batch s' = batch s @ coin_ops (x # todo)"
        using c(2) b1 by (simp add: coin_ops_Cons)
      moreover have "chunks \<noteq> [] \<longrightarrow> take (length (batch s)) (hd chunks) = batch s"
      proof
        assume "chunks \<noteq> []"
        with c(3) have "take (length batch1) (hd chunks) = batch1" by simp
        then have "take (length (batch s)) (take (length batch1) (hd chunks)) = take (length (batch s)) batch1"
          by simp
        then show "take (length (batch s)) (hd chunks) = batch s"
          using b1 by (simp add: min_def split: if_splits)
      qed
      moreover have "kept s' = kept s @ filter is_loaded (x # todo)"
        using c(5) False by simp
      ultimately show ?thesis using c(1,4) by blast
    qed
  qed
qed

lemma BatchWrite_Returned:
  assumes "BatchWrite E e m h = Returned ret e' m'"
  shows "\<exists>chunks rest.
           wlog e' = wlog e @ chunks @ [rest @ [Erase HeadBlocksKey, Write BestBlockKey (HashVal h)]]
         \<and> concat chunks @ rest
             = [Erase BestBlockKey, Write HeadBlocksKey (HashesVal [h, old_tip_of (disk e)])] @ coin_ops m
         \<and> (chunks \<noteq> [] \<longrightarrow> take 2 (hd chunks)
               = [Erase BestBlockKey, Write HeadBlocksKey (HashesVal [h, old_tip_of (disk e)])])
         \<and> disk e' = run_batches (persists E) (length (wlog e))
               (chunks @ [rest @ [Erase HeadBlocksKey, Write BestBlockKey (HashVal h)]]) (disk e)
         \<and> ret = persists E (length (wlog e) + length chunks)
         \<and> m' = filter is_loaded m"
proof -
  let ?s0 = "\<lparr>eng = e, batch = [Erase BestBlockKey, Write HeadBlocksKey (HashesVal [h, old_tip_of (disk e)])],
               kept = [], changed = 0, count = 0\<rparr>"
  let ?fin = "[Erase HeadBlocksKey, Write BestBlockKey (HashVal h)]"
  from assms obtain s where
    loop: "BatchWrite_loop E m ?s0 = Inl s"
    and fin: "Returned ret e' m' = (let (ret, e') = WriteBatch (persists E) (batch s @ ?fin) (eng s) in Returned ret e' (kept s))"
    by (auto simp: BatchWrite_def Let_def split: if_splits sum.splits)
  from fin have r: "ret = fst (WriteBatch (persists E) (batch s @ ?fin) (eng s))"
    "e' = snd (WriteBatch (persists E) (batch s @ ?fin) (eng s))" "m' = kept s"
    by (auto simp: Let_def split: prod.splits)
  have "\<exists>chunks. wlog (eng s) = wlog e @ chunks
       \<and> concat chunks @ batch s = [Erase BestBlockKey, Write HeadBlocksKey (HashesVal [h, old_tip_of (disk e)])] @ coin_ops m
       \<and> (chunks \<noteq> [] \<longrightarrow> take 2 (hd chunks) = [Erase BestBlockKey, Write HeadBlocksKey (HashesVal [h, old_tip_of (disk e)])])
       \<and> disk (eng s) = run_batches (persists E) (length (wlog e)) chunks (disk e)
       \<and> kept s = filter is_loaded m"
    using loop_structure [OF loop] by (simp add: numeral_2_eq_2)
  then obtain chunks where
    c: "wlog (eng s) = wlog e @ chunks"
       "concat chunks @ batch s = [Erase BestBlockKey, Write HeadBlocksKey (HashesVal [h, old_tip_of (disk e)])] @ coin_ops m"
       "chunks \<noteq> [] \<longrightarrow> take 2 (hd chunks) = [Erase BestBlockKey, Write HeadBlocksKey (HashesVal [h, old_tip_of (disk e)])]"
       "disk (eng s) = run_batches (persists E) (length (wlog e)) chunks (disk e)"
       "kept s = filter is_loaded m"
    by blast
  have "wlog e' = wlog e @ chunks @ [batch s @ ?fin]"
    using r(2) c(1) by (simp add: WriteBatch_wlog)
  moreover have "disk e' = run_batches (persists E) (length (wlog e)) (chunks @ [batch s @ ?fin]) (disk e)"
    using r(2) c(1,4) by (simp add: WriteBatch_disk run_batches_append)
  moreover have "ret = persists E (length (wlog e) + length chunks)"
    using r(1) c(1) by (simp add: WriteBatch_fst)
  ultimately show ?thesis using c(2,3,5) r(3) by blast
qed

lemma BatchWrite_shape:
  assumes "BatchWrite E e m h = Returned ret e' m'"
  shows "wlog e' = wlog e @ new_batches e e'
       \<and> disk e' = run_batches (persists E) (length (wlog e)) (new_batches e e') (disk e)
       \<and> ret = persists E (length (wlog e') - 1)
       \<and> (new_batches e e' = [marker h (old_tip_of (disk e)) @ coin_ops m @ final_ops h]
          \<or> (\<exists>x cs rest. new_batches e e' = (marker h (old_tip_of (disk e)) @ x) # cs @ [rest @ final_ops h]
                \<and> x @ concat cs @ rest = coin_ops m))"
proof -
  from BatchWrite_Returned [OF assms] obtain chunks rest where
    c: "wlog e' = wlog e @ chunks @ [rest @ final_ops h]"
       "concat chunks @ rest = marker h (old_tip_of (disk e)) @ coin_ops m"
       "chunks \<noteq> [] \<longrightarrow> take 2 (hd chunks) = marker h (old_tip_of (disk e))"
       "disk e' = run_batches (persists E) (length (wlog e)) (chunks @ [rest @ final_ops h]) (disk e)"
       "ret = persists E (length (wlog e) + length chunks)"
    unfolding marker_def final_ops_def by blast
  have nb: "new_batches e e' = chunks @ [rest @ final_ops h]"
    using c(1) by (simp add: new_batches_def)
  have shape: "new_batches e e' = [marker h (old_tip_of (disk e)) @ coin_ops m @ final_ops h]
       \<or> (\<exists>x cs rest. new_batches e e' = (marker h (old_tip_of (disk e)) @ x) # cs @ [rest @ final_ops h]
                \<and> x @ concat cs @ rest = coin_ops m)"
  proof (cases chunks)
    case Nil
    with c(2) nb show ?thesis by simp
  next
    case (Cons c1 cs)
    with c(3) have t: "take 2 c1 = marker h (old_tip_of (disk e))" by simp
    have "c1 = take 2 c1 @ drop 2 c1" by simp
    with t have c1: "c1 = marker h (old_tip_of (disk e)) @ drop 2 c1" by simp
    have "marker h (old_tip_of (disk e)) @ (drop 2 c1 @ concat cs @ rest)
          = marker h (old_tip_of (disk e)) @ coin_ops m"
      using c(2) Cons c1 by (metis append.assoc concat.simps(2))
    then have "drop 2 c1 @ concat cs @ rest = coin_ops m" by simp
    with nb Cons c1 show ?thesis by (metis append_Cons)
  qed
  show ?thesis using c(1,4,5) nb shape by simp
qed

lemma steady_tipview: "steady d = (fst (tipview d) \<noteq> None \<and> snd (tipview d) = None)"
  by (simp add: steady_def Exists_def tipview_def)

lemma transitional_tipview:
  "transitional d = (fst (tipview d) = None
      \<and> (case snd (tipview d) of Some (HashesVal hs) \<Rightarrow> length hs = 2 | _ \<Rightarrow> False))"
  by (auto simp: transitional_def Exists_def tipview_def ReadHashes_def split: option.splits db_val.splits)

lemma tip_after_marker:
  "\<forall>op \<in> set x. is_coin_op op \<Longrightarrow>
     tipview (apply_batch (marker a b @ x) d) = (None, Some (HashesVal [a, b]))"
  by (cases "tipview d") (simp add: tipview_apply_batch marker_def fold_tip_step_coin_ops)

lemma tip_after_final:
  "\<forall>op \<in> set x. is_coin_op op \<Longrightarrow>
     tipview (apply_batch (x @ final_ops a) d) = (Some (HashVal a), None)"
  by (cases "tipview d") (simp add: tipview_apply_batch final_ops_def fold_tip_step_coin_ops)

lemma tip_after_single:
  "\<forall>op \<in> set x. is_coin_op op \<Longrightarrow>
     tipview (apply_batch (marker a b @ x @ final_ops a') d) = (Some (HashVal a'), None)"
  by (cases "tipview d") (simp add: tipview_apply_batch final_ops_def marker_def fold_tip_step_coin_ops)

lemma tip_coin_only_chunks:
  "\<forall>c \<in> set cs. \<forall>op \<in> set c. is_coin_op op \<Longrightarrow> tipview (run_batches P i cs d) = tipview d"
  by (induction cs arbitrary: i d) (simp_all add: tipview_apply_batch fold_tip_step_coin_ops)

lemma run_batches_keeps_I1:
  "\<forall>b \<in> set bs. keeps_I1 b \<Longrightarrow> I1 d \<Longrightarrow> I1 (run_batches P i bs d)"
  by (induction bs arbitrary: i d) (simp_all add: keeps_I1_def)

lemma keeps_I1_marker: "\<forall>op \<in> set x. is_coin_op op \<Longrightarrow> keeps_I1 (marker a b @ x)"
  by (simp add: keeps_I1_def I1_def transitional_tipview tip_after_marker)

lemma keeps_I1_final: "\<forall>op \<in> set x. is_coin_op op \<Longrightarrow> keeps_I1 (x @ final_ops a)"
  by (simp add: keeps_I1_def I1_def steady_tipview tip_after_final)

lemma keeps_I1_single: "\<forall>op \<in> set x. is_coin_op op \<Longrightarrow> keeps_I1 (marker a b @ x @ final_ops a')"
  by (simp add: keeps_I1_def I1_def steady_tipview tip_after_single)

lemma keeps_I1_coin_only: "\<forall>op \<in> set x. is_coin_op op \<Longrightarrow> keeps_I1 x"
  by (simp add: keeps_I1_def I1_def steady_tipview transitional_tipview tipview_apply_batch fold_tip_step_coin_ops)

lemma run_batches_snoc:
  "run_batches P i (bs @ [b]) d =
     (if P (i + length bs) then apply_batch b (run_batches P i bs d) else run_batches P i bs d)"
  by (simp add: run_batches_append)

lemma not_final_in_coin_ops:
  "\<forall>op \<in> set x. is_coin_op op \<Longrightarrow> Erase HeadBlocksKey \<notin> set x \<and> (\<forall>v. Write BestBlockKey v \<notin> set x)"
  by auto

lemma Exists_tipview:
  "Exists d BestBlockKey = (fst (tipview d) \<noteq> None)"
  "Exists d HeadBlocksKey = (snd (tipview d) \<noteq> None)"
  "ReadHash d BestBlockKey = (case fst (tipview d) of Some (HashVal h) \<Rightarrow> Some h | _ \<Rightarrow> None)"
  "ReadHashes d HeadBlocksKey = (case snd (tipview d) of Some (HashesVal hs) \<Rightarrow> Some hs | _ \<Rightarrow> None)"
  by (simp_all add: Exists_def tipview_def ReadHash_def ReadHashes_def)

lemma commit_protocol_returned:
  assumes "BatchWrite E e mapCoins hashBlock = Returned ret e' mapCoins'"
  shows "wlog e' = wlog e @ new_batches e e'
       \<and> concat (new_batches e e')
           = marker hashBlock (old_tip_of (disk e)) @ coin_ops mapCoins @ final_ops hashBlock
       \<and> (\<forall>op \<in> set (coin_ops mapCoins). is_coin_op op)
       \<and> take 2 (hd (new_batches e e')) = marker hashBlock (old_tip_of (disk e))
       \<and> drop (length (last (new_batches e e')) - 2) (last (new_batches e e')) = final_ops hashBlock
       \<and> (\<forall>b \<in> set (butlast (new_batches e e')).
             Erase HeadBlocksKey \<notin> set b \<and> (\<forall>v. Write BestBlockKey v \<notin> set b))
       \<and> (\<forall>k \<le> length (new_batches e e'). I1 (disk e) \<longrightarrow>
             I1 (run_batches (persists E) (length (wlog e)) (take k (new_batches e e')) (disk e)))
       \<and> (\<forall>k. 0 < k \<and> k < length (new_batches e e') \<and> persists E (length (wlog e)) \<longrightarrow>
             \<not> Exists (run_batches (persists E) (length (wlog e)) (take k (new_batches e e')) (disk e)) BestBlockKey
           \<and> ReadHashes (run_batches (persists E) (length (wlog e)) (take k (new_batches e e')) (disk e)) HeadBlocksKey
               = Some [hashBlock, old_tip_of (disk e)])
       \<and> disk e' = run_batches (persists E) (length (wlog e)) (new_batches e e') (disk e)
       \<and> (ret \<longrightarrow> ReadHash (disk e') BestBlockKey = Some hashBlock \<and> \<not> Exists (disk e') HeadBlocksKey)"
proof -
  let ?nb = "new_batches e e'"
  let ?mk = "marker hashBlock (old_tip_of (disk e))"
  let ?fin = "final_ops hashBlock"
  let ?P = "persists E"
  let ?i = "length (wlog e)"
  note sh = BatchWrite_shape [OF assms]
  from sh have w: "wlog e' = wlog e @ ?nb"
    and d: "disk e' = run_batches ?P ?i ?nb (disk e)"
    and r: "ret = ?P (length (wlog e') - 1)" by simp_all
  have co: "\<forall>op \<in> set (coin_ops mapCoins). is_coin_op op" by (rule coin_ops_are_coin_ops)
  from sh consider
    (single) "?nb = [?mk @ coin_ops mapCoins @ ?fin]"
  | (multi) x cs rest where "?nb = (?mk @ x) # cs @ [rest @ ?fin]" "x @ concat cs @ rest = coin_ops mapCoins"
    by blast
  then have rest: "concat ?nb = ?mk @ coin_ops mapCoins @ ?fin
       \<and> take 2 (hd ?nb) = ?mk
       \<and> drop (length (last ?nb) - 2) (last ?nb) = ?fin
       \<and> (\<forall>b \<in> set (butlast ?nb). Erase HeadBlocksKey \<notin> set b \<and> (\<forall>v. Write BestBlockKey v \<notin> set b))
       \<and> (\<forall>k \<le> length ?nb. I1 (disk e) \<longrightarrow> I1 (run_batches ?P ?i (take k ?nb) (disk e)))
       \<and> (\<forall>k. 0 < k \<and> k < length ?nb \<and> ?P ?i \<longrightarrow>
             \<not> Exists (run_batches ?P ?i (take k ?nb) (disk e)) BestBlockKey
           \<and> ReadHashes (run_batches ?P ?i (take k ?nb) (disk e)) HeadBlocksKey
               = Some [hashBlock, old_tip_of (disk e)])
       \<and> (?P (?i + length ?nb - 1) \<longrightarrow>
             ReadHash (run_batches ?P ?i ?nb (disk e)) BestBlockKey = Some hashBlock
           \<and> \<not> Exists (run_batches ?P ?i ?nb (disk e)) HeadBlocksKey)"
  proof cases
    case single
    have k1: "keeps_I1 (?mk @ coin_ops mapCoins @ ?fin)" using co by (rule keeps_I1_single)
    have "\<forall>k \<le> length ?nb. I1 (disk e) \<longrightarrow> I1 (run_batches ?P ?i (take k ?nb) (disk e))"
    proof (intro allI impI)
      fix k assume "k \<le> length ?nb" and i1: "I1 (disk e)"
      have "\<forall>b \<in> set (take k ?nb). keeps_I1 b"
        using k1 single by (auto dest: in_set_takeD)
      then show "I1 (run_batches ?P ?i (take k ?nb) (disk e))"
        using i1 by (rule run_batches_keeps_I1)
    qed
    moreover have "?P (?i + length ?nb - 1) \<longrightarrow>
             ReadHash (run_batches ?P ?i ?nb (disk e)) BestBlockKey = Some hashBlock
           \<and> \<not> Exists (run_batches ?P ?i ?nb (disk e)) HeadBlocksKey"
      using single co by (simp add: Exists_tipview tip_after_single)
    ultimately show ?thesis
      using single by (simp add: marker_def final_ops_def)
  next
    case multi
    have cx: "\<forall>op \<in> set x. is_coin_op op" and ccs: "\<forall>c \<in> set cs. \<forall>op \<in> set c. is_coin_op op"
      and cr: "\<forall>op \<in> set rest. is_coin_op op"
      using co multi(2) [symmetric] by auto
    have c1: "concat ?nb = ?mk @ coin_ops mapCoins @ ?fin"
      using multi by simp
    have c2: "take 2 (hd ?nb) = ?mk" using multi(1) by (simp add: marker_def)
    have c3: "drop (length (last ?nb) - 2) (last ?nb) = ?fin"
      using multi(1) by (simp add: final_ops_def)
    have bl: "butlast ?nb = (?mk @ x) # cs" using multi(1) by (simp add: butlast_append)
    have c4: "\<forall>b \<in> set (butlast ?nb). Erase HeadBlocksKey \<notin> set b \<and> (\<forall>v. Write BestBlockKey v \<notin> set b)"
      unfolding bl using not_final_in_coin_ops [OF cx] ccs not_final_in_coin_ops
      by (auto simp: marker_def)
    have keep: "\<forall>b \<in> set ?nb. keeps_I1 b"
      using multi(1) keeps_I1_marker [OF cx] keeps_I1_final [OF cr] ccs keeps_I1_coin_only
      by auto
    have c5: "\<forall>k \<le> length ?nb. I1 (disk e) \<longrightarrow> I1 (run_batches ?P ?i (take k ?nb) (disk e))"
    proof (intro allI impI)
      fix k assume "k \<le> length ?nb" and i1: "I1 (disk e)"
      have "\<forall>b \<in> set (take k ?nb). keeps_I1 b"
        using keep by (auto dest: in_set_takeD)
      then show "I1 (run_batches ?P ?i (take k ?nb) (disk e))"
        using i1 by (rule run_batches_keeps_I1)
    qed
    have c6: "\<forall>k. 0 < k \<and> k < length ?nb \<and> ?P ?i \<longrightarrow>
             \<not> Exists (run_batches ?P ?i (take k ?nb) (disk e)) BestBlockKey
           \<and> ReadHashes (run_batches ?P ?i (take k ?nb) (disk e)) HeadBlocksKey
               = Some [hashBlock, old_tip_of (disk e)]"
    proof (intro allI impI)
      fix k assume k: "0 < k \<and> k < length ?nb \<and> ?P ?i"
      then obtain j where j: "k = Suc j" "j \<le> length cs" using multi(1) by (cases k) auto
      have tk: "take k ?nb = (?mk @ x) # take j cs" using j multi(1) by simp
      have "\<forall>c \<in> set (take j cs). \<forall>op \<in> set c. is_coin_op op"
        using ccs by (auto dest: in_set_takeD)
      then have "tipview (run_batches ?P ?i (take k ?nb) (disk e))
                 = (None, Some (HashesVal [hashBlock, old_tip_of (disk e)]))"
        using k by (simp add: tk tip_coin_only_chunks tip_after_marker [OF cx])
      then show "\<not> Exists (run_batches ?P ?i (take k ?nb) (disk e)) BestBlockKey
           \<and> ReadHashes (run_batches ?P ?i (take k ?nb) (disk e)) HeadBlocksKey
               = Some [hashBlock, old_tip_of (disk e)]"
        by (simp add: Exists_tipview)
    qed
    have nb': "?nb = ((?mk @ x) # cs) @ [rest @ ?fin]" using multi(1) by simp
    have c7: "?P (?i + length ?nb - 1) \<longrightarrow>
             ReadHash (run_batches ?P ?i ?nb (disk e)) BestBlockKey = Some hashBlock
           \<and> \<not> Exists (run_batches ?P ?i ?nb (disk e)) HeadBlocksKey"
    proof
      assume p: "?P (?i + length ?nb - 1)"
      have "?i + length ?nb - 1 = ?i + length ((?mk @ x) # cs)" using multi(1) by simp
      with p have "run_batches ?P ?i ?nb (disk e)
                   = apply_batch (rest @ ?fin) (run_batches ?P ?i ((?mk @ x) # cs) (disk e))"
        by (subst nb', subst run_batches_snoc) simp
      then show "ReadHash (run_batches ?P ?i ?nb (disk e)) BestBlockKey = Some hashBlock
           \<and> \<not> Exists (run_batches ?P ?i ?nb (disk e)) HeadBlocksKey"
        by (simp add: Exists_tipview tip_after_final [OF cr])
    qed
    from c1 c2 c3 c4 c5 c6 c7 show ?thesis by blast
  qed
  have "length (wlog e') - 1 = ?i + length ?nb - 1" using w by (metis length_append)
  with rest r d w co show ?thesis by simp
qed

lemma loop_structure_exit:
  "BatchWrite_loop E todo s = Inr e' \<Longrightarrow>
     \<exists>chunks ys. chunks \<noteq> [] \<and> wlog e' = wlog (eng s) @ chunks
       \<and> concat chunks @ ys = batch s @ coin_ops todo
       \<and> take (length (batch s)) (hd chunks) = batch s
       \<and> disk e' = run_batches (persists E) (length (wlog (eng s))) chunks (disk (eng s))"
proof (induction todo arbitrary: s)
  case Nil
  then show ?case by simp
next
  case (Cons x todo)
  show ?case
  proof (cases "is_loaded x")
    case True
    with Cons.prems have "BatchWrite_loop E todo (s\<lparr>kept := kept s @ [x]\<rparr>) = Inr e'"
      by simp
    from Cons.IH [OF this] True show ?thesis
      by (simp add: coin_ops_Cons)
  next
    case False
    define batch1 where "batch1 = (if is_dirty x then batch s @ [coin_op x] else batch s)"
    define s1 where "s1 = s\<lparr>batch := batch1, changed := (if is_dirty x then changed s + 1 else changed s), count := count s + 1\<rparr>"
    have b1: "batch1 = batch s @ (if \<not> is_loaded x \<and> is_dirty x then [coin_op x] else [])"
      using False by (simp add: batch1_def)
    show ?thesis
    proof (cases "SizeEstimate E batch1 > batch_size E")
      case flush: True
      define eng1 where "eng1 = snd (WriteBatch (persists E) batch1 (eng s))"
      show ?thesis
      proof (cases "crash_simulate E \<noteq> 0 \<and> randrange E (length (wlog eng1)) = 0")
        case True
        then have "e' = eng1"
          using Cons.prems False flush
          by (simp add: Let_def batch1_def s1_def eng1_def split: if_splits)
        then have "[batch1] \<noteq> [] \<and> wlog e' = wlog (eng s) @ [batch1]
           \<and> concat [batch1] @ coin_ops todo = batch s @ coin_ops (x # todo)
           \<and> take (length (batch s)) (hd [batch1]) = batch s
           \<and> disk e' = run_batches (persists E) (length (wlog (eng s))) [batch1] (disk (eng s))"
          using b1 by (simp add: eng1_def WriteBatch_wlog WriteBatch_disk coin_ops_Cons)
        then show ?thesis by blast
      next
        case nocrash: False
        have run: "BatchWrite_loop E todo (s1\<lparr>eng := eng1, batch := []\<rparr>) = Inr e'"
          using Cons.prems False flush nocrash
          by (simp add: Let_def batch1_def s1_def eng1_def split: if_splits)
        have "\<exists>chunks ys. chunks \<noteq> [] \<and> wlog e' = wlog eng1 @ chunks
           \<and> concat chunks @ ys = coin_ops todo
           \<and> disk e' = run_batches (persists E) (length (wlog eng1)) chunks (disk eng1)"
          using Cons.IH [OF run] by (simp add: s1_def)
        then obtain chunks ys where
          c: "wlog e' = wlog eng1 @ chunks" "concat chunks @ ys = coin_ops todo"
             "disk e' = run_batches (persists E) (length (wlog eng1)) chunks (disk eng1)"
          by blast
        have "batch1 # chunks \<noteq> [] \<and> wlog e' = wlog (eng s) @ (batch1 # chunks)
           \<and> concat (batch1 # chunks) @ ys = batch s @ coin_ops (x # todo)
           \<and> take (length (batch s)) (hd (batch1 # chunks)) = batch s
           \<and> disk e' = run_batches (persists E) (length (wlog (eng s))) (batch1 # chunks) (disk (eng s))"
          using c b1 by (simp add: eng1_def WriteBatch_wlog WriteBatch_disk coin_ops_Cons)
        then show ?thesis by blast
      qed
    next
      case noflush: False
      have run: "BatchWrite_loop E todo s1 = Inr e'"
        using Cons.prems False noflush
        by (simp add: Let_def batch1_def s1_def split: if_splits)
      have "\<exists>chunks ys. chunks \<noteq> [] \<and> wlog e' = wlog (eng s) @ chunks
           \<and> concat chunks @ ys = batch1 @ coin_ops todo
           \<and> take (length batch1) (hd chunks) = batch1
           \<and> disk e' = run_batches (persists E) (length (wlog (eng s))) chunks (disk (eng s))"
        using Cons.IH [OF run] by (simp add: s1_def)
      then obtain chunks ys where
        c: "chunks \<noteq> []" "wlog e' = wlog (eng s) @ chunks"
           "concat chunks @ ys = batch1 @ coin_ops todo"
           "take (length batch1) (hd chunks) = batch1"
           "disk e' = run_batches (persists E) (length (wlog (eng s))) chunks (disk (eng s))"
        by blast
      have "concat chunks @ ys = batch s @ coin_ops (x # todo)"
        using c(3) b1 by (simp add: coin_ops_Cons)
      moreover have "take (length (batch s)) (hd chunks) = batch s"
      proof -
        from c(4) have "take (length (batch s)) (take (length batch1) (hd chunks)) = take (length (batch s)) batch1"
          by simp
        then show ?thesis using b1 by (simp add: min_def split: if_splits)
      qed
      ultimately show ?thesis using c(1,2,5) by blast
    qed
  qed
qed

lemma BatchWrite_exit_shape:
  assumes "BatchWrite E e m h = ProcessExited e'"
  shows "wlog e' = wlog e @ new_batches e e'
       \<and> disk e' = run_batches (persists E) (length (wlog e)) (new_batches e e') (disk e)
       \<and> (\<exists>x cs ys. new_batches e e' = (marker h (old_tip_of (disk e)) @ x) # cs
                \<and> x @ concat cs @ ys = coin_ops m)"
proof -
  let ?s0 = "\<lparr>eng = e, batch = [Erase BestBlockKey, Write HeadBlocksKey (HashesVal [h, old_tip_of (disk e)])],
               kept = [], changed = 0, count = 0\<rparr>"
  from assms have loop: "BatchWrite_loop E m ?s0 = Inr e'"
    by (auto simp: BatchWrite_def Let_def split: if_splits sum.splits prod.splits)
  have "\<exists>chunks ys. chunks \<noteq> [] \<and> wlog e' = wlog e @ chunks
       \<and> concat chunks @ ys = marker h (old_tip_of (disk e)) @ coin_ops m
       \<and> take 2 (hd chunks) = marker h (old_tip_of (disk e))
       \<and> disk e' = run_batches (persists E) (length (wlog e)) chunks (disk e)"
    using loop_structure_exit [OF loop] by (simp add: numeral_2_eq_2 marker_def)
  then obtain chunks ys where
    c: "chunks \<noteq> []" "wlog e' = wlog e @ chunks"
       "concat chunks @ ys = marker h (old_tip_of (disk e)) @ coin_ops m"
       "take 2 (hd chunks) = marker h (old_tip_of (disk e))"
       "disk e' = run_batches (persists E) (length (wlog e)) chunks (disk e)"
    by blast
  have nb: "new_batches e e' = chunks" using c(2) by (simp add: new_batches_def)
  obtain c1 cs where cs: "chunks = c1 # cs" using c(1) by (cases chunks) auto
  with c(4) have t: "take 2 c1 = marker h (old_tip_of (disk e))" by simp
  have "c1 = take 2 c1 @ drop 2 c1" by simp
  with t have c1: "c1 = marker h (old_tip_of (disk e)) @ drop 2 c1" by simp
  have "marker h (old_tip_of (disk e)) @ (drop 2 c1 @ concat cs @ ys)
        = marker h (old_tip_of (disk e)) @ coin_ops m"
    using c(3) cs c1 by (metis append.assoc concat.simps(2))
  then have "drop 2 c1 @ concat cs @ ys = coin_ops m" by simp
  with nb cs c1 have "\<exists>x cs ys. new_batches e e' = (marker h (old_tip_of (disk e)) @ x) # cs
                \<and> x @ concat cs @ ys = coin_ops m" by metis
  with c(2,5) nb show ?thesis by simp
qed

lemma commit_protocol_exited:
  assumes "BatchWrite E e mapCoins hashBlock = ProcessExited e'"
  shows "wlog e' = wlog e @ new_batches e e'
       \<and> (\<exists>ys. concat (new_batches e e') @ ys
             = marker hashBlock (old_tip_of (disk e)) @ coin_ops mapCoins)
       \<and> new_batches e e' \<noteq> []
       \<and> take 2 (hd (new_batches e e')) = marker hashBlock (old_tip_of (disk e))
       \<and> (\<forall>b \<in> set (new_batches e e').
             Erase HeadBlocksKey \<notin> set b \<and> (\<forall>v. Write BestBlockKey v \<notin> set b))
       \<and> (\<forall>k \<le> length (new_batches e e'). I1 (disk e) \<longrightarrow>
             I1 (run_batches (persists E) (length (wlog e)) (take k (new_batches e e')) (disk e)))
       \<and> (\<forall>k. 0 < k \<and> k \<le> length (new_batches e e') \<and> persists E (length (wlog e)) \<longrightarrow>
             \<not> Exists (run_batches (persists E) (length (wlog e)) (take k (new_batches e e')) (disk e)) BestBlockKey
           \<and> ReadHashes (run_batches (persists E) (length (wlog e)) (take k (new_batches e e')) (disk e)) HeadBlocksKey
               = Some [hashBlock, old_tip_of (disk e)])
       \<and> disk e' = run_batches (persists E) (length (wlog e)) (new_batches e e') (disk e)"
proof -
  let ?nb = "new_batches e e'"
  let ?mk = "marker hashBlock (old_tip_of (disk e))"
  let ?P = "persists E"
  let ?i = "length (wlog e)"
  note sh = BatchWrite_exit_shape [OF assms]
  from sh have w: "wlog e' = wlog e @ ?nb"
    and d: "disk e' = run_batches ?P ?i ?nb (disk e)" by simp_all
  have co: "\<forall>op \<in> set (coin_ops mapCoins). is_coin_op op" by (rule coin_ops_are_coin_ops)
  from sh obtain x cs ys where nb: "?nb = (?mk @ x) # cs" and cs: "x @ concat cs @ ys = coin_ops mapCoins"
    by blast
  have cx: "\<forall>op \<in> set x. is_coin_op op" and ccs: "\<forall>c \<in> set cs. \<forall>op \<in> set c. is_coin_op op"
    using co cs [symmetric] by auto
  have c1: "concat ?nb @ ys = ?mk @ coin_ops mapCoins" using nb cs by simp
  have c2: "take 2 (hd ?nb) = ?mk" using nb by (simp add: marker_def)
  have c4: "\<forall>b \<in> set ?nb. Erase HeadBlocksKey \<notin> set b \<and> (\<forall>v. Write BestBlockKey v \<notin> set b)"
    unfolding nb using not_final_in_coin_ops [OF cx] ccs not_final_in_coin_ops
    by (auto simp: marker_def)
  have keep: "\<forall>b \<in> set ?nb. keeps_I1 b"
    using nb keeps_I1_marker [OF cx] ccs keeps_I1_coin_only by auto
  have c5: "\<forall>k \<le> length ?nb. I1 (disk e) \<longrightarrow> I1 (run_batches ?P ?i (take k ?nb) (disk e))"
  proof (intro allI impI)
    fix k assume "k \<le> length ?nb" and i1: "I1 (disk e)"
    have "\<forall>b \<in> set (take k ?nb). keeps_I1 b"
      using keep by (auto dest: in_set_takeD)
    then show "I1 (run_batches ?P ?i (take k ?nb) (disk e))"
      using i1 by (rule run_batches_keeps_I1)
  qed
  have c6: "\<forall>k. 0 < k \<and> k \<le> length ?nb \<and> ?P ?i \<longrightarrow>
           \<not> Exists (run_batches ?P ?i (take k ?nb) (disk e)) BestBlockKey
         \<and> ReadHashes (run_batches ?P ?i (take k ?nb) (disk e)) HeadBlocksKey
             = Some [hashBlock, old_tip_of (disk e)]"
  proof (intro allI impI)
    fix k assume k: "0 < k \<and> k \<le> length ?nb \<and> ?P ?i"
    then obtain j where j: "k = Suc j" by (cases k) auto
    have tk: "take k ?nb = (?mk @ x) # take j cs" using j nb by simp
    have "\<forall>c \<in> set (take j cs). \<forall>op \<in> set c. is_coin_op op"
      using ccs by (auto dest: in_set_takeD)
    then have "tipview (run_batches ?P ?i (take k ?nb) (disk e))
               = (None, Some (HashesVal [hashBlock, old_tip_of (disk e)]))"
      using k by (simp add: tk tip_coin_only_chunks tip_after_marker [OF cx])
    then show "\<not> Exists (run_batches ?P ?i (take k ?nb) (disk e)) BestBlockKey
         \<and> ReadHashes (run_batches ?P ?i (take k ?nb) (disk e)) HeadBlocksKey
             = Some [hashBlock, old_tip_of (disk e)]"
      by (simp add: Exists_tipview)
  qed
  have "?nb \<noteq> []" using nb by simp
  with w d c1 c2 c4 c5 c6 show ?thesis by blast
qed

section \<open>Helper lemmas: the migration\<close>

lemma zeros_le:
  "length ys = length zs \<Longrightarrow> \<forall>z \<in> set zs. z = 0 \<Longrightarrow> zs \<le> (ys :: byte list)"
proof (induction zs arbitrary: ys)
  case Nil
  then show ?case by simp
next
  case (Cons z zs)
  then obtain y ys' where ys: "ys = y # ys'" by (cases ys) auto
  with Cons.prems have "zs \<le> ys'" by (intro Cons.IH) auto
  moreover have "z = 0" using Cons.prems by simp
  moreover have "(0::byte) \<le> y" by simp
  ultimately show ?case unfolding ys by (auto simp: less_eq_list_code order_le_less)
qed

lemma ser_uint256_0_le: "ser_uint256 0 \<le> ser_uint256 h"
  by (rule zeros_le) (auto simp: ser_uint256_def)

lemma seek_target_le_iff:
  "DB_COINS # ser_uint256 0 \<le> key_bytes k \<longleftrightarrow> is_legacy_key k"
proof (cases k)
  case (CoinsKey t)
  then show ?thesis using ser_uint256_0_le [of t] by simp
qed (simp_all add: DB_COINS_def DB_BEST_BLOCK_def DB_HEAD_BLOCKS_def DB_COIN_def Serialize_def CoinEntry_new_def
        not_le)

lemma legacy_cursor_eq:
  "legacy_cursor db = filter (\<lambda>r. is_legacy_key (fst r)) (sort_key (\<lambda>r. key_bytes (fst r)) db)"
proof -
  have "sorted (map (\<lambda>r. key_bytes (fst r)) (sort_key (\<lambda>r. key_bytes (fst r)) db))" by simp
  from dropWhile_sorted_filter [OF this, of "DB_COINS # ser_uint256 0"]
  show ?thesis by (simp add: legacy_cursor_def Seek_def NewIterator_def seek_target_le_iff)
qed

lemma set_legacy_cursor: "set (legacy_cursor db) = {r \<in> set db. is_legacy_key (fst r)}"
  by (auto simp: legacy_cursor_eq)

lemma distinct_legacy_cursor:
  "distinct (map fst db) \<Longrightarrow> distinct (map fst (legacy_cursor db))"
  by (simp add: legacy_cursor_eq distinct_map_filter distinct_map inj_on_def)

lemma cursor_ops_Cons: "cursor_ops E (r # it) = entry_ops E r @ cursor_ops E it"
  by (simp add: cursor_ops_def)

lemma Upgrade_loop_run:
  assumes "\<forall>r \<in> set (take j pcursor). is_legacy_record r"
    and "\<forall>i < j. \<not> ShutdownRequested E (np + i)"
    and "j < length pcursor \<longrightarrow> ShutdownRequested E (np + j)"
  shows "\<exists>e' b' chunks.
           Upgrade_loop E pcursor e b np
             = (False, e', b', np + (if j < length pcursor then j + 1 else length pcursor))
         \<and> wlog e' = wlog e @ chunks
         \<and> concat chunks @ b' = b @ cursor_ops E (take j pcursor)
         \<and> disk e' = run_batches (persists E) (length (wlog e)) chunks (disk e)"
  using assms
proof (induction pcursor arbitrary: e b np j)
  case Nil
  have "Upgrade_loop E [] e b np = (False, e, b, np + (if j < length [] then j + 1 else length []))
      \<and> wlog e = wlog e @ [] \<and> concat [] @ b = b @ cursor_ops E (take j [])
      \<and> disk e = run_batches (persists E) (length (wlog e)) [] (disk e)"
    by (simp add: cursor_ops_def)
  then show ?case by blast
next
  case (Cons r pcursor)
  obtain k v where r: "r = (k, v)" by (cases r)
  show ?case
  proof (cases j)
    case 0
    with Cons.prems(3) have sd: "ShutdownRequested E np" by simp
    have "Upgrade_loop E (r # pcursor) e b np
            = (False, e, b, np + (if j < length (r # pcursor) then j + 1 else length (r # pcursor)))
        \<and> wlog e = wlog e @ [] \<and> concat [] @ b = b @ cursor_ops E (take j (r # pcursor))
        \<and> disk e = run_batches (persists E) (length (wlog e)) [] (disk e)"
      using sd 0 r by (simp add: cursor_ops_def)
    then show ?thesis by blast
  next
    case (Suc j')
    from Cons.prems(2) Suc have nsd: "\<not> ShutdownRequested E np" by force
    from Cons.prems(1) Suc have "is_legacy_record r" by simp
    then obtain txid old_coins where kv: "k = CoinsKey txid" "v = CCoinsVal old_coins"
      using r by (cases k; cases v) auto
    define b1 where "b1 = b @ record_ops E txid old_coins"
    have p1: "\<forall>r \<in> set (take j' pcursor). is_legacy_record r" using Cons.prems(1) Suc by simp
    have p2: "\<forall>i < j'. \<not> ShutdownRequested E (np + 1 + i)"
      using Cons.prems(2) Suc by (metis Suc_less_eq add.assoc plus_1_eq_Suc)
    have p3: "j' < length pcursor \<longrightarrow> ShutdownRequested E (np + 1 + j')"
      using Cons.prems(3) Suc by simp
    have np: "np + 1 + (if j' < length pcursor then j' + 1 else length pcursor)
              = np + (if j < length (r # pcursor) then j + 1 else length (r # pcursor))"
      using Suc by simp
    have ops: "cursor_ops E (take j (r # pcursor)) = record_ops E txid old_coins @ cursor_ops E (take j' pcursor)"
      using Suc r kv by (simp add: cursor_ops_Cons)
    show ?thesis
    proof (cases "SizeEstimate E b1 > 2 ^ 24")
      case True
      define e1 where "e1 = snd (WriteBatch (persists E) b1 e)"
      have step: "Upgrade_loop E (r # pcursor) e b np = Upgrade_loop E pcursor e1 [] (np + 1)"
        using nsd r kv True by (simp add: Let_def b1_def e1_def)
      from Cons.IH [OF p1 p2 p3, of e1 "[]"] obtain e' b' chunks where
        c: "Upgrade_loop E pcursor e1 [] (np + 1)
             = (False, e', b', np + 1 + (if j' < length pcursor then j' + 1 else length pcursor))"
           "wlog e' = wlog e1 @ chunks"
           "concat chunks @ b' = [] @ cursor_ops E (take j' pcursor)"
           "disk e' = run_batches (persists E) (length (wlog e1)) chunks (disk e1)"
        by blast
      have "Upgrade_loop E (r # pcursor) e b np
              = (False, e', b', np + (if j < length (r # pcursor) then j + 1 else length (r # pcursor)))"
        using step c(1) np by simp
      moreover have "wlog e' = wlog e @ (b1 # chunks)"
        using c(2) by (simp add: e1_def WriteBatch_wlog)
      moreover have "concat (b1 # chunks) @ b' = b @ cursor_ops E (take j (r # pcursor))"
        using c(3) ops by (simp add: b1_def)
      moreover have "disk e' = run_batches (persists E) (length (wlog e)) (b1 # chunks) (disk e)"
        using c(4) by (simp add: e1_def WriteBatch_wlog WriteBatch_disk)
      ultimately show ?thesis by blast
    next
      case False
      have step: "Upgrade_loop E (r # pcursor) e b np = Upgrade_loop E pcursor e b1 (np + 1)"
        using nsd r kv False by (simp add: Let_def b1_def)
      from Cons.IH [OF p1 p2 p3, of e b1] obtain e' b' chunks where
        c: "Upgrade_loop E pcursor e b1 (np + 1)
             = (False, e', b', np + 1 + (if j' < length pcursor then j' + 1 else length pcursor))"
           "wlog e' = wlog e @ chunks"
           "concat chunks @ b' = b1 @ cursor_ops E (take j' pcursor)"
           "disk e' = run_batches (persists E) (length (wlog e)) chunks (disk e)"
        by blast
      have "Upgrade_loop E (r # pcursor) e b np
              = (False, e', b', np + (if j < length (r # pcursor) then j + 1 else length (r # pcursor)))"
        using step c(1) np by simp
      moreover have "concat chunks @ b' = b @ cursor_ops E (take j (r # pcursor))"
        using c(3) ops by (simp add: b1_def)
      ultimately show ?thesis using c(2,4) by blast
    qed
  qed
qed

lemma Upgrade_result:
  assumes "legacy_cursor (disk e) \<noteq> []"
    and "\<forall>r \<in> set (take j (legacy_cursor (disk e))). is_legacy_record r"
    and "\<forall>i < j. \<not> ShutdownRequested E i"
    and "j < length (legacy_cursor (disk e)) \<longrightarrow> ShutdownRequested E j"
  shows "\<exists>e' np. Upgrade E e = (\<not> ShutdownRequested E (np + 1), e')
         \<and> np = (if j < length (legacy_cursor (disk e)) then j + 1 else length (legacy_cursor (disk e)))
         \<and> wlog e' = wlog e @ new_batches e e'
         \<and> new_batches e e' \<noteq> []
         \<and> concat (new_batches e e') = cursor_ops E (take j (legacy_cursor (disk e)))
         \<and> disk e' = run_batches (persists E) (length (wlog e)) (new_batches e e') (disk e)"
proof -
  let ?it = "legacy_cursor (disk e)"
  from Upgrade_loop_run [of j ?it E 0 e "[]"] assms(2,3,4)
  obtain e1 b' chunks where
    c: "Upgrade_loop E ?it e [] 0 = (False, e1, b', (if j < length ?it then j + 1 else length ?it))"
       "wlog e1 = wlog e @ chunks"
       "concat chunks @ b' = cursor_ops E (take j ?it)"
       "disk e1 = run_batches (persists E) (length (wlog e)) chunks (disk e)"
    by auto
  define e' where "e' = snd (WriteBatch (persists E) b' e1)"
  define np where "np = (if j < length ?it then j + 1 else length ?it)"
  have u: "Upgrade E e = (\<not> ShutdownRequested E (np + 1), e')"
    using assms(1) c(1) by (simp add: Upgrade_def Let_def e'_def np_def)
  have w: "wlog e' = wlog e @ chunks @ [b']" using c(2) by (simp add: e'_def WriteBatch_wlog)
  then have nb: "new_batches e e' = chunks @ [b']" by (simp add: new_batches_def)
  have d: "disk e' = run_batches (persists E) (length (wlog e)) (chunks @ [b']) (disk e)"
    using c(2,4) by (simp add: e'_def WriteBatch_disk run_batches_append)
  show ?thesis using u w nb d c(3) np_def by simp
qed

lemma apply_batch_append: "apply_batch (a @ b) d = apply_batch b (apply_batch a d)"
  by (simp add: apply_batch_def)

lemma run_batches_all_persist:
  "\<forall>k. P k \<Longrightarrow> run_batches P i bs d = apply_batch (concat bs) d"
proof (induction bs arbitrary: i d)
  case Nil
  show ?case by (simp add: apply_batch_def)
next
  case (Cons b bs)
  then show ?case by (simp add: apply_batch_append)
qed

lemma writes_append: "writes (a @ b) = writes a @ writes b"
  by (induction a rule: writes.induct) simp_all

lemma erases_append: "erases (a @ b) = erases a @ erases b"
  by (induction a rule: erases.induct) simp_all

lemma map_of_apply_batch:
  "distinct (map fst (writes ops)) \<Longrightarrow> set (erases ops) \<inter> fst ` set (writes ops) = {} \<Longrightarrow>
     map_of (apply_batch ops d) k =
       (if k \<in> set (erases ops) then None
        else case map_of (writes ops) k of Some v \<Rightarrow> Some v | None \<Rightarrow> map_of d k)"
proof (induction ops arbitrary: d)
  case Nil
  show ?case by (simp add: apply_batch_def)
next
  case (Cons x ops)
  have step: "apply_batch (x # ops) d = apply_batch ops (apply_op x d)"
    by (simp add: apply_batch_def)
  show ?case
  proof (cases x)
    case (Write k' v')
    with Cons.prems have d: "distinct (map fst (writes ops))" and nk: "k' \<notin> fst ` set (writes ops)"
      and dj: "set (erases ops) \<inter> fst ` set (writes ops) = {}" and ne: "k' \<notin> set (erases ops)"
      by auto
    have none: "map_of (writes ops) k' = None" using nk by (simp add: map_of_eq_None_iff)
    show ?thesis
      unfolding step Cons.IH [OF d dj] using ne none
      by (simp add: Write update_conv' split: option.splits)
  next
    case (Erase k')
    with Cons.prems have d: "distinct (map fst (writes ops))" and nk: "k' \<notin> fst ` set (writes ops)"
      and dj: "set (erases ops) \<inter> fst ` set (writes ops) = {}"
      by auto
    have none: "map_of (writes ops) k' = None" using nk by (simp add: map_of_eq_None_iff)
    show ?thesis
      unfolding step Cons.IH [OF d dj] using none
      by (simp add: Erase delete_conv' split: option.splits)
  qed
qed

lemma erases_vout_ops: "erases (vout_ops E t c i outs) = []"
  by (induction outs arbitrary: i) (simp_all add: erases_append)

lemma writes_vout_ops_iff:
  "(k, v) \<in> set (writes (vout_ops E t c i outs)) \<longleftrightarrow>
     (\<exists>j < length outs. spendable E (outs ! j)
        \<and> k = CoinKey \<lparr>hash = t, nIndex = word_of_nat (i + j)\<rparr>
        \<and> v = CoinVal (upgraded_coin c (outs ! j)))"
proof (induction outs arbitrary: i)
  case Nil
  show ?case by simp
next
  case (Cons x outs)
  have "(\<exists>j < length (x # outs). spendable E ((x # outs) ! j)
        \<and> k = CoinKey \<lparr>hash = t, nIndex = word_of_nat (i + j)\<rparr>
        \<and> v = CoinVal (upgraded_coin c ((x # outs) ! j)))
     \<longleftrightarrow> (spendable E x \<and> k = CoinKey \<lparr>hash = t, nIndex = word_of_nat i\<rparr> \<and> v = CoinVal (upgraded_coin c x))
       \<or> (\<exists>j < length outs. spendable E (outs ! j)
        \<and> k = CoinKey \<lparr>hash = t, nIndex = word_of_nat (Suc i + j)\<rparr>
        \<and> v = CoinVal (upgraded_coin c (outs ! j)))"
    (is "?L \<longleftrightarrow> ?A \<or> ?B")
  proof
    assume ?L
    then obtain j where j: "j < length (x # outs)" "spendable E ((x # outs) ! j)"
      "k = CoinKey \<lparr>hash = t, nIndex = word_of_nat (i + j)\<rparr>" "v = CoinVal (upgraded_coin c ((x # outs) ! j))"
      by blast
    show "?A \<or> ?B"
    proof (cases j)
      case 0
      with j show ?thesis by simp
    next
      case (Suc j')
      with j have "j' < length outs \<and> spendable E (outs ! j')
        \<and> k = CoinKey \<lparr>hash = t, nIndex = word_of_nat (Suc i + j')\<rparr>
        \<and> v = CoinVal (upgraded_coin c (outs ! j'))" by simp
      then show ?thesis by blast
    qed
  next
    assume "?A \<or> ?B"
    then show ?L
    proof
      assume ?A
      then have "0 < length (x # outs) \<and> spendable E ((x # outs) ! 0)
        \<and> k = CoinKey \<lparr>hash = t, nIndex = word_of_nat (i + 0)\<rparr>
        \<and> v = CoinVal (upgraded_coin c ((x # outs) ! 0))" by simp
      then show ?L by blast
    next
      assume ?B
      then obtain j where "j < length outs" "spendable E (outs ! j)"
        "k = CoinKey \<lparr>hash = t, nIndex = word_of_nat (Suc i + j)\<rparr>" "v = CoinVal (upgraded_coin c (outs ! j))"
        by blast
      then have "Suc j < length (x # outs) \<and> spendable E ((x # outs) ! Suc j)
        \<and> k = CoinKey \<lparr>hash = t, nIndex = word_of_nat (i + Suc j)\<rparr>
        \<and> v = CoinVal (upgraded_coin c ((x # outs) ! Suc j))" by simp
      then show ?L by blast
    qed
  qed
  moreover have "(k, v) \<in> set (writes (vout_ops E t c i (x # outs)))
     \<longleftrightarrow> (spendable E x \<and> k = CoinKey \<lparr>hash = t, nIndex = word_of_nat i\<rparr> \<and> v = CoinVal (upgraded_coin c x))
       \<or> (k, v) \<in> set (writes (vout_ops E t c (Suc i) outs))"
    by (auto simp: writes_append spendable_def upgraded_coin_def)
  ultimately show ?case using Cons.IH [of "Suc i"] by simp
qed

lemma length_writes_vout_ops:
  "length (writes (vout_ops E t c i outs)) = length (filter (spendable E) outs)"
  by (induction outs arbitrary: i) (simp_all add: writes_append spendable_def)

lemma word_of_nat_inj_32:
  "a < 2 ^ 32 \<Longrightarrow> b < 2 ^ 32 \<Longrightarrow> (word_of_nat a :: 32 word) = word_of_nat b \<Longrightarrow> a = b"
proof -
  assume a: "a < 2 ^ 32" and b: "b < 2 ^ 32" and eq: "(word_of_nat a :: 32 word) = word_of_nat b"
  have "unat (word_of_nat a :: 32 word) = a" by (rule of_nat_inverse [OF refl]) (use a in simp)
  moreover have "unat (word_of_nat b :: 32 word) = b" by (rule of_nat_inverse [OF refl]) (use b in simp)
  ultimately show "a = b" using eq by metis
qed

lemma distinct_writes_vout_ops:
  "i + length outs \<le> 2 ^ 32 \<Longrightarrow> distinct (map fst (writes (vout_ops E t c i outs)))"
proof (induction outs arbitrary: i)
  case Nil
  show ?case by simp
next
  case (Cons x outs)
  have rest: "distinct (map fst (writes (vout_ops E t c (Suc i) outs)))"
    using Cons.prems by (intro Cons.IH) simp
  have fresh: "CoinKey \<lparr>hash = t, nIndex = word_of_nat i\<rparr> \<notin> fst ` set (writes (vout_ops E t c (Suc i) outs))"
  proof
    assume "CoinKey \<lparr>hash = t, nIndex = word_of_nat i\<rparr> \<in> fst ` set (writes (vout_ops E t c (Suc i) outs))"
    then obtain v where "(CoinKey \<lparr>hash = t, nIndex = word_of_nat i\<rparr>, v) \<in> set (writes (vout_ops E t c (Suc i) outs))"
      by auto
    then obtain j where j: "j < length outs" "(word_of_nat i :: 32 word) = word_of_nat (Suc i + j)"
      unfolding writes_vout_ops_iff by auto
    have "i < 2 ^ 32" "Suc i + j < 2 ^ 32" using Cons.prems j(1) by simp_all
    from word_of_nat_inj_32 [OF this j(2)] show False by simp
  qed
  show ?case using rest fresh by (simp add: writes_append)
qed

lemma writes_entry_ops_iff:
  "(k, v) \<in> set (writes (entry_ops E r)) \<longleftrightarrow>
     (\<exists>t c j. r = (CoinsKey t, CCoinsVal c) \<and> j < length (vout c) \<and> spendable E (vout c ! j)
        \<and> k = CoinKey \<lparr>hash = t, nIndex = word_of_nat j\<rparr>
        \<and> v = CoinVal (upgraded_coin c (vout c ! j)))"
proof (cases "is_legacy_record r")
  case True
  then obtain t c where r: "r = (CoinsKey t, CCoinsVal c)"
    by (cases r rule: is_legacy_record.cases) auto
  show ?thesis
    using writes_vout_ops_iff [of k v E t c 0 "vout c"]
    by (simp add: r record_ops_def writes_append)
next
  case False
  then have "entry_ops E r = []" by (cases r rule: is_legacy_record.cases) auto
  moreover have "\<not> (\<exists>t c. r = (CoinsKey t, CCoinsVal c))" using False by auto
  ultimately show ?thesis by simp
qed

lemma writes_cursor_ops_iff:
  "(k, v) \<in> set (writes (cursor_ops E it)) \<longleftrightarrow>
     (\<exists>t c j. (CoinsKey t, CCoinsVal c) \<in> set it \<and> j < length (vout c) \<and> spendable E (vout c ! j)
        \<and> k = CoinKey \<lparr>hash = t, nIndex = word_of_nat j\<rparr>
        \<and> v = CoinVal (upgraded_coin c (vout c ! j)))"
proof (induction it)
  case Nil
  show ?case by (simp add: cursor_ops_def)
next
  case (Cons r it)
  have "(k, v) \<in> set (writes (cursor_ops E (r # it)))
        \<longleftrightarrow> (k, v) \<in> set (writes (entry_ops E r)) \<or> (k, v) \<in> set (writes (cursor_ops E it))"
    by (simp add: cursor_ops_Cons writes_append)
  also have "\<dots> \<longleftrightarrow>
     (\<exists>t c j. r = (CoinsKey t, CCoinsVal c) \<and> j < length (vout c) \<and> spendable E (vout c ! j)
        \<and> k = CoinKey \<lparr>hash = t, nIndex = word_of_nat j\<rparr>
        \<and> v = CoinVal (upgraded_coin c (vout c ! j)))
   \<or> (\<exists>t c j. (CoinsKey t, CCoinsVal c) \<in> set it \<and> j < length (vout c) \<and> spendable E (vout c ! j)
        \<and> k = CoinKey \<lparr>hash = t, nIndex = word_of_nat j\<rparr>
        \<and> v = CoinVal (upgraded_coin c (vout c ! j)))"
    by (simp only: writes_entry_ops_iff Cons.IH)
  also have "\<dots> \<longleftrightarrow>
     (\<exists>t c j. (CoinsKey t, CCoinsVal c) \<in> set (r # it) \<and> j < length (vout c) \<and> spendable E (vout c ! j)
        \<and> k = CoinKey \<lparr>hash = t, nIndex = word_of_nat j\<rparr>
        \<and> v = CoinVal (upgraded_coin c (vout c ! j)))"
    by (simp only: list.set insert_iff) blast
  finally show ?case .
qed

lemma erases_entry_ops:
  "set (erases (entry_ops E r)) = {k. \<exists>t c. r = (CoinsKey t, CCoinsVal c) \<and> k = CoinsKey t}"
proof (cases "is_legacy_record r")
  case True
  then obtain t c where r: "r = (CoinsKey t, CCoinsVal c)"
    by (cases r rule: is_legacy_record.cases) auto
  show ?thesis by (auto simp: r record_ops_def erases_append erases_vout_ops)
next
  case False
  then have "entry_ops E r = []" by (cases r rule: is_legacy_record.cases) auto
  moreover have "\<not> (\<exists>t c. r = (CoinsKey t, CCoinsVal c))" using False by auto
  ultimately show ?thesis by simp
qed

lemma erases_cursor_ops:
  "set (erases (cursor_ops E it)) = {k. \<exists>t c. (CoinsKey t, CCoinsVal c) \<in> set it \<and> k = CoinsKey t}"
proof (induction it)
  case Nil
  show ?case by (simp add: cursor_ops_def)
next
  case (Cons r it)
  show ?case
    unfolding cursor_ops_Cons erases_append set_append Cons.IH erases_entry_ops
    by auto
qed

lemma distinct_writes_entry_ops:
  "(\<forall>t c. r = (CoinsKey t, CCoinsVal c) \<longrightarrow> length (vout c) \<le> 2 ^ 32) \<Longrightarrow>
     distinct (map fst (writes (entry_ops E r)))"
proof (cases "is_legacy_record r")
  case True
  assume len: "\<forall>t c. r = (CoinsKey t, CCoinsVal c) \<longrightarrow> length (vout c) \<le> 2 ^ 32"
  from True obtain t c where r: "r = (CoinsKey t, CCoinsVal c)"
    by (cases r rule: is_legacy_record.cases) auto
  with len have "0 + length (vout c) \<le> 2 ^ 32" by simp
  from distinct_writes_vout_ops [OF this] show ?thesis
    by (simp add: r record_ops_def writes_append)
next
  case False
  then have "entry_ops E r = []" by (cases r rule: is_legacy_record.cases) auto
  then show ?thesis by simp
qed

lemma distinct_writes_cursor_ops:
  "distinct (map fst it) \<Longrightarrow>
   \<forall>t c. (CoinsKey t, CCoinsVal c) \<in> set it \<longrightarrow> length (vout c) \<le> 2 ^ 32 \<Longrightarrow>
     distinct (map fst (writes (cursor_ops E it)))"
proof (induction it)
  case Nil
  show ?case by (simp add: cursor_ops_def)
next
  case (Cons r it)
  have d1: "distinct (map fst (writes (entry_ops E r)))"
    using Cons.prems(2) by (intro distinct_writes_entry_ops) auto
  have d2: "distinct (map fst (writes (cursor_ops E it)))"
    using Cons.prems by (intro Cons.IH) auto
  have dj: "fst ` set (writes (entry_ops E r)) \<inter> fst ` set (writes (cursor_ops E it)) = {}"
  proof (rule ccontr)
    assume "fst ` set (writes (entry_ops E r)) \<inter> fst ` set (writes (cursor_ops E it)) \<noteq> {}"
    then obtain k v v' where a: "(k, v) \<in> set (writes (entry_ops E r))"
      and b: "(k, v') \<in> set (writes (cursor_ops E it))" by auto
    from a obtain t c j where r: "r = (CoinsKey t, CCoinsVal c)"
      and k: "k = CoinKey \<lparr>hash = t, nIndex = word_of_nat j\<rparr>"
      unfolding writes_entry_ops_iff by blast
    from b obtain t' c' j' where m: "(CoinsKey t', CCoinsVal c') \<in> set it"
      and k': "k = CoinKey \<lparr>hash = t', nIndex = word_of_nat j'\<rparr>"
      unfolding writes_cursor_ops_iff by blast
    from k k' have "t = t'" by simp
    with m have "CoinsKey t \<in> fst ` set it" by force
    with Cons.prems(1) r show False by simp
  qed
  show ?case
    using d1 d2 dj by (simp add: cursor_ops_Cons writes_append)
qed

lemma length_writes_cursor_ops:
  "length (writes (cursor_ops E it)) = sum_list (map (spendable_outputs E) it)"
proof (induction it)
  case Nil
  show ?case by (simp add: cursor_ops_def)
next
  case (Cons r it)
  have "length (writes (entry_ops E r)) = spendable_outputs E r"
    by (cases "(E, r)" rule: spendable_outputs.cases)
       (simp_all add: record_ops_def writes_append length_writes_vout_ops)
  with Cons.IH show ?case by (simp add: cursor_ops_Cons writes_append)
qed

lemma sum_list_insort_key:
  "sum_list (map h (insort_key f x xs)) = h x + sum_list (map h xs)"
  for h :: "'a \<Rightarrow> nat"
  by (induction xs) simp_all

lemma sum_list_sort_key:
  "sum_list (map h (sort_key f xs)) = sum_list (map h xs)"
  for h :: "'a \<Rightarrow> nat"
  by (induction xs) (simp_all add: sum_list_insort_key)

lemma sum_list_filter_zero:
  "\<forall>x \<in> set xs. \<not> P x \<longrightarrow> h x = 0 \<Longrightarrow> sum_list (map h (filter P xs)) = sum_list (map h xs)"
  for h :: "'a \<Rightarrow> nat"
  by (induction xs) simp_all

lemma legacy_outputs_cursor:
  "sum_list (map (spendable_outputs E) (legacy_cursor db)) = legacy_outputs E db"
proof -
  have z: "\<forall>r \<in> set (sort_key (\<lambda>r. key_bytes (fst r)) db). \<not> is_legacy_key (fst r) \<longrightarrow> spendable_outputs E r = 0"
  proof (intro ballI impI)
    fix r :: "db_key \<times> db_val"
    assume "\<not> is_legacy_key (fst r)"
    then show "spendable_outputs E r = 0"
      by (cases "(E, r)" rule: spendable_outputs.cases) simp_all
  qed
  show ?thesis
    unfolding legacy_cursor_eq legacy_outputs_def
    using sum_list_filter_zero [OF z] by (simp add: sum_list_sort_key)
qed

lemma Upgrade_nothing_to_do:
  assumes "\<forall>r \<in> set (disk e). \<not> is_legacy_key (fst r)"
  shows "Upgrade E e = (True, e)"
proof -
  have "set (legacy_cursor (disk e)) = {}" using assms by (auto simp: set_legacy_cursor)
  then show ?thesis by (simp add: Upgrade_def)
qed

lemma Upgrade_to_completion:
  assumes "\<forall>r \<in> set (disk e). is_legacy_key (fst r) \<longrightarrow> is_legacy_record r"
    and "\<forall>k. \<not> ShutdownRequested E k" and "\<forall>k. persists E k"
  shows "fst (Upgrade E e)
       \<and> disk (snd (Upgrade E e)) = apply_batch (cursor_ops E (legacy_cursor (disk e))) (disk e)"
proof (cases "legacy_cursor (disk e) = []")
  case True
  then show ?thesis by (simp add: Upgrade_def cursor_ops_def apply_batch_def)
next
  case False
  let ?it = "legacy_cursor (disk e)"
  have leg: "\<forall>r \<in> set (take (length ?it) ?it). is_legacy_record r"
    using assms(1) by (auto simp: set_legacy_cursor)
  have nsd: "\<forall>i < length ?it. \<not> ShutdownRequested E i" using assms(2) by simp
  have stop: "length ?it < length ?it \<longrightarrow> ShutdownRequested E (length ?it)" by simp
  from Upgrade_result [OF False leg nsd stop] obtain e' np where
    u: "Upgrade E e = (\<not> ShutdownRequested E (np + 1), e')"
       "concat (new_batches e e') = cursor_ops E (take (length ?it) ?it)"
       "disk e' = run_batches (persists E) (length (wlog e)) (new_batches e e') (disk e)"
    by blast
  have "disk e' = apply_batch (cursor_ops E ?it) (disk e)"
    using u(2,3) run_batches_all_persist [OF assms(3)] by simp
  with u(1) assms(2) show ?thesis by simp
qed

lemma card_coin_keys:
  assumes "\<forall>k \<in> set ks. \<exists>op. k = CoinKey op" and "distinct ks"
  shows "card {op. CoinKey op \<in> set ks} = length ks"
proof -
  have "CoinKey ` {op. CoinKey op \<in> set ks} = set ks" using assms(1) by auto
  moreover have "inj_on CoinKey {op. CoinKey op \<in> set ks}" by (simp add: inj_on_def)
  ultimately have "card {op. CoinKey op \<in> set ks} = card (set ks)"
    by (metis card_image)
  with assms(2) show ?thesis by (simp add: distinct_card)
qed

section \<open>Helper lemmas: the example inputs\<close>

lemma ex_legacy_cursor:
  "legacy_cursor (disk ex_legacy_engine) =
     [(CoinsKey 1, CCoinsVal \<lparr>legacy_fCoinBase = True,
         vout = [\<lparr>nValue = 50, scriptPubKey = [3]\<rparr>], legacy_nHeight = 11\<rparr>),
      (CoinsKey 2, CCoinsVal \<lparr>legacy_fCoinBase = False,
         vout = [\<lparr>nValue = 5, scriptPubKey = [1]\<rparr>, \<lparr>nValue = - 1, scriptPubKey = []\<rparr>,
                 \<lparr>nValue = 7, scriptPubKey = [0x6a]\<rparr>, \<lparr>nValue = 8, scriptPubKey = [2]\<rparr>],
         legacy_nHeight = 10\<rparr>)]"
  by code_simp

lemma ex_legacy_outputs: "legacy_outputs ex_env (disk ex_legacy_engine) = 3"
  by (simp add: legacy_outputs_def ex_legacy_engine_def ex_env_def spendable_def CTxOut_IsNull_def)

lemmas ex_defs = ex_env_def ex_engine_def ex_coin_def ex_changeset_def
lemmas bw_eval = BatchWrite_def Let_def IsNull_def GetBestBlock_def ReadHash_def
     GetHeadBlocks_def ReadHashes_def old_tip_of_def is_loaded_def is_dirty_def coin_op_def SizeEstimate_def
     WriteBatch_def apply_batch_def DIRTY_def IsSpent_def CTxOut_IsNull_def

lemma Unserialize_example:
  "Unserialize (CoinEntry_new \<lparr>hash = 5, nIndex = 9\<rparr>) (DB_COINS # replicate 32 0 @ [0])
     = (\<lparr>ce_key = DB_COINS, ce_outpoint = \<lparr>hash = 0, nIndex = 0\<rparr>\<rparr>, Some [])"
  by code_simp

section \<open>C1: the commit protocol and invariant I1\<close>

text \<open>
  Claim C1 (ordering of the commit, invariant I1). For a call of \<^verbatim>\<open>BatchWrite\<close> with new
  tip \<open>hashBlock\<close> that returns: the batches handed to the engine, concatenated, are the
  erasure of the best-block key and the write of the head-blocks marker
  \<open>[hashBlock, old_tip]\<close>, then the coin operations drained from the changeset, then the
  erasure of the head-blocks key and the write of the best-block key to \<open>hashBlock\<close>;
  the first two operations open the first batch, the last two close the last batch and
  occur in no earlier batch. Consequently, after any number of the batches (whichever of
  them the engine persisted) a store that satisfied I1 before still satisfies it: it is
  in steady state (best-block present, head-blocks absent) or in the transitional state
  (head-blocks present with two entries, best-block absent). When the first batch was
  persisted, the store after every batch but the last is in the transitional state with
  marker \<open>[hashBlock, old_tip]\<close>, and when the call returns true the store is in steady
  state at \<open>hashBlock\<close>. When the crash simulation ends the process instead, the
  batches written so far are a prefix of the same sequence, without the closing
  operations, and the same holds of the states they leave.
\<close>

theorem BatchWrite_commit_protocol:
  "(\<forall>ret e' mapCoins'. BatchWrite E e mapCoins hashBlock = Returned ret e' mapCoins' \<longrightarrow>
       wlog e' = wlog e @ new_batches e e'
     \<and> concat (new_batches e e')
         = marker hashBlock (old_tip_of (disk e)) @ coin_ops mapCoins @ final_ops hashBlock
     \<and> (\<forall>op \<in> set (coin_ops mapCoins). is_coin_op op)
     \<and> take 2 (hd (new_batches e e')) = marker hashBlock (old_tip_of (disk e))
     \<and> drop (length (last (new_batches e e')) - 2) (last (new_batches e e')) = final_ops hashBlock
     \<and> (\<forall>b \<in> set (butlast (new_batches e e')).
           Erase HeadBlocksKey \<notin> set b \<and> (\<forall>v. Write BestBlockKey v \<notin> set b))
     \<and> (\<forall>k \<le> length (new_batches e e'). I1 (disk e) \<longrightarrow>
           I1 (run_batches (persists E) (length (wlog e)) (take k (new_batches e e')) (disk e)))
     \<and> (\<forall>k. 0 < k \<and> k < length (new_batches e e') \<and> persists E (length (wlog e)) \<longrightarrow>
           \<not> Exists (run_batches (persists E) (length (wlog e)) (take k (new_batches e e')) (disk e)) BestBlockKey
         \<and> ReadHashes (run_batches (persists E) (length (wlog e)) (take k (new_batches e e')) (disk e)) HeadBlocksKey
             = Some [hashBlock, old_tip_of (disk e)])
     \<and> disk e' = run_batches (persists E) (length (wlog e)) (new_batches e e') (disk e)
     \<and> (ret \<longrightarrow> ReadHash (disk e') BestBlockKey = Some hashBlock \<and> \<not> Exists (disk e') HeadBlocksKey))
 \<and> (\<forall>e'. BatchWrite E e mapCoins hashBlock = ProcessExited e' \<longrightarrow>
       wlog e' = wlog e @ new_batches e e'
     \<and> (\<exists>ys. concat (new_batches e e') @ ys
           = marker hashBlock (old_tip_of (disk e)) @ coin_ops mapCoins)
     \<and> new_batches e e' \<noteq> []
     \<and> take 2 (hd (new_batches e e')) = marker hashBlock (old_tip_of (disk e))
     \<and> (\<forall>b \<in> set (new_batches e e').
           Erase HeadBlocksKey \<notin> set b \<and> (\<forall>v. Write BestBlockKey v \<notin> set b))
     \<and> (\<forall>k \<le> length (new_batches e e'). I1 (disk e) \<longrightarrow>
           I1 (run_batches (persists E) (length (wlog e)) (take k (new_batches e e')) (disk e)))
     \<and> (\<forall>k. 0 < k \<and> k \<le> length (new_batches e e') \<and> persists E (length (wlog e)) \<longrightarrow>
           \<not> Exists (run_batches (persists E) (length (wlog e)) (take k (new_batches e e')) (disk e)) BestBlockKey
         \<and> ReadHashes (run_batches (persists E) (length (wlog e)) (take k (new_batches e e')) (disk e)) HeadBlocksKey
             = Some [hashBlock, old_tip_of (disk e)])
     \<and> disk e' = run_batches (persists E) (length (wlog e)) (new_batches e e') (disk e))"
  using commit_protocol_returned [of E e mapCoins hashBlock]
    commit_protocol_exited [of E e mapCoins hashBlock]
  by blast

theorem BatchWrite_commit_protocol_witness:
  "BatchWrite ex_env ex_engine ex_changeset 7 =
     Returned True
       \<lparr>disk = [(CoinKey \<lparr>hash = 1, nIndex = 0\<rparr>, CoinVal (ex_coin 50 False)), (BestBlockKey, HashVal 7)],
        wlog = [[Erase BestBlockKey, Write HeadBlocksKey (HashesVal [7, 3]),
                 Write (CoinKey \<lparr>hash = 1, nIndex = 0\<rparr>) (CoinVal (ex_coin 50 False))],
                [Erase (CoinKey \<lparr>hash = 2, nIndex = 0\<rparr>), Erase HeadBlocksKey,
                 Write BestBlockKey (HashVal 7)]]\<rparr>
       [(\<lparr>hash = 3, nIndex = 0\<rparr>, \<lparr>entry_coin = ex_coin 20 True, flags = 1\<rparr>)]
   \<and> I1 (disk ex_engine)
   \<and> I1 (run_batches (\<lambda>_. True) 0
        [[Erase BestBlockKey, Write HeadBlocksKey (HashesVal [7, 3]),
          Write (CoinKey \<lparr>hash = 1, nIndex = 0\<rparr>) (CoinVal (ex_coin 50 False))]] (disk ex_engine))
   \<and> ReadHashes (run_batches (\<lambda>_. True) 0
        [[Erase BestBlockKey, Write HeadBlocksKey (HashesVal [7, 3]),
          Write (CoinKey \<lparr>hash = 1, nIndex = 0\<rparr>) (CoinVal (ex_coin 50 False))]] (disk ex_engine))
        HeadBlocksKey = Some [7, 3]
   \<and> BatchWrite (ex_env\<lparr>crash_simulate := 1, randrange := (\<lambda>_. 0)\<rparr>) ex_engine ex_changeset 7 =
     ProcessExited
       \<lparr>disk = [(HeadBlocksKey, HashesVal [7, 3]),
                (CoinKey \<lparr>hash = 1, nIndex = 0\<rparr>, CoinVal (ex_coin 50 False))],
        wlog = [[Erase BestBlockKey, Write HeadBlocksKey (HashesVal [7, 3]),
                 Write (CoinKey \<lparr>hash = 1, nIndex = 0\<rparr>) (CoinVal (ex_coin 50 False))]]\<rparr>"
proof -
  let ?b1 = "[Erase BestBlockKey, Write HeadBlocksKey (HashesVal [7, 3]),
              Write (CoinKey \<lparr>hash = 1, nIndex = 0\<rparr>) (CoinVal (ex_coin 50 False))]"
  let ?b2 = "[Erase (CoinKey \<lparr>hash = 2, nIndex = 0\<rparr>), Erase HeadBlocksKey, Write BestBlockKey (HashVal 7)]"
  let ?e1 = "\<lparr>disk = [(CoinKey \<lparr>hash = 1, nIndex = 0\<rparr>, CoinVal (ex_coin 50 False)), (BestBlockKey, HashVal 7)],
              wlog = [?b1, ?b2]\<rparr>"
  let ?e2 = "\<lparr>disk = [(HeadBlocksKey, HashesVal [7, 3]),
                (CoinKey \<lparr>hash = 1, nIndex = 0\<rparr>, CoinVal (ex_coin 50 False))],
              wlog = [?b1]\<rparr>"
  have r: "BatchWrite ex_env ex_engine ex_changeset 7 = Returned True ?e1
             [(\<lparr>hash = 3, nIndex = 0\<rparr>, \<lparr>entry_coin = ex_coin 20 True, flags = 1\<rparr>)]"
    by (simp add: ex_defs bw_eval)
  have x: "BatchWrite (ex_env\<lparr>crash_simulate := 1, randrange := (\<lambda>_. 0)\<rparr>) ex_engine ex_changeset 7
             = ProcessExited ?e2"
    by (simp add: ex_defs bw_eval)
  have i: "I1 (disk ex_engine)"
    by (simp add: ex_engine_def I1_def steady_def Exists_def)
  have nb: "new_batches ex_engine ?e1 = [?b1, ?b2]"
    by (simp add: new_batches_def ex_engine_def)
  have p: "persists ex_env = (\<lambda>_. True)" "wlog ex_engine = []"
    by (simp_all add: ex_env_def ex_engine_def)
  from BatchWrite_commit_protocol [of ex_env ex_engine ex_changeset 7] r
  have A: "(\<forall>k \<le> length (new_batches ex_engine ?e1). I1 (disk ex_engine) \<longrightarrow>
           I1 (run_batches (persists ex_env) (length (wlog ex_engine)) (take k (new_batches ex_engine ?e1)) (disk ex_engine)))"
    and B: "(\<forall>k. 0 < k \<and> k < length (new_batches ex_engine ?e1) \<and> persists ex_env (length (wlog ex_engine)) \<longrightarrow>
           \<not> Exists (run_batches (persists ex_env) (length (wlog ex_engine)) (take k (new_batches ex_engine ?e1)) (disk ex_engine)) BestBlockKey
         \<and> ReadHashes (run_batches (persists ex_env) (length (wlog ex_engine)) (take k (new_batches ex_engine ?e1)) (disk ex_engine)) HeadBlocksKey
             = Some [7, old_tip_of (disk ex_engine)])"
    by blast+
  have ot: "old_tip_of (disk ex_engine) = 3"
    by (simp add: ex_engine_def old_tip_of_def Let_def GetBestBlock_def ReadHash_def IsNull_def)
  from A [rule_format, of 1] i have a1: "I1 (run_batches (\<lambda>_. True) 0 [?b1] (disk ex_engine))"
    by (simp add: nb p)
  from B [rule_format, of 1] have b1: "ReadHashes (run_batches (\<lambda>_. True) 0 [?b1] (disk ex_engine)) HeadBlocksKey = Some [7, 3]"
    by (simp add: nb p ot)
  from r x i a1 b1 show ?thesis by simp
qed

section \<open>C2: visibility of a spent coin\<close>

text \<open>
  Claim C2 (spend removes visibility). After a commit whose changeset holds outpoint \<open>O\<close>
  as a dirty entry, not flagged loaded, whose coin is spent, \<^verbatim>\<open>HaveCoin(O)\<close> should be
  false and \<^verbatim>\<open>GetCoin(O)\<close> should return no coin, unless the overlay holds an unspent
  record for \<open>O\<close>. \<^verbatim>\<open>GetCoin\<close> tests the spent flag of the overlay record;
  \<^verbatim>\<open>HaveCoin\<close> goes through \<^verbatim>\<open>HaveLoadedCoin\<close>, which only asks whether a record
  exists. The evaluation below runs the commit on a store that holds \<open>O\<close>, with an overlay
  whose record for \<open>O\<close> is marked spent: the commit erases \<open>O\<close> from the primary table
  and returns true, \<^verbatim>\<open>GetCoin(O)\<close> returns false, and \<^verbatim>\<open>HaveCoin(O)\<close> returns true.
\<close>

theorem HaveCoin_true_for_spent_overlay_record:
  "BatchWrite ex_env
       \<lparr>disk = [(BestBlockKey, HashVal 3), (CoinKey \<lparr>hash = 1, nIndex = 0\<rparr>, CoinVal (ex_coin 50 False))],
        wlog = []\<rparr>
       [(\<lparr>hash = 1, nIndex = 0\<rparr>, \<lparr>entry_coin = ex_coin (- 1) False, flags = 1\<rparr>)] 7
     = Returned True
         \<lparr>disk = [(BestBlockKey, HashVal 7)],
          wlog = [[Erase BestBlockKey, Write HeadBlocksKey (HashesVal [7, 3]),
                   Erase (CoinKey \<lparr>hash = 1, nIndex = 0\<rparr>)],
                  [Erase HeadBlocksKey, Write BestBlockKey (HashVal 7)]]\<rparr> []
   \<and> HaveCoin hash [(BestBlockKey, HashVal 7)]
        [(1, \<lparr>loaded_out = \<lparr>hash = 1, nIndex = 0\<rparr>, loaded_coin = ex_coin 50 False, fSpent = True\<rparr>)]
        \<lparr>hash = 1, nIndex = 0\<rparr>
   \<and> \<not> fst (GetCoin hash [(BestBlockKey, HashVal 7)]
        [(1, \<lparr>loaded_out = \<lparr>hash = 1, nIndex = 0\<rparr>, loaded_coin = ex_coin 50 False, fSpent = True\<rparr>)]
        \<lparr>hash = 1, nIndex = 0\<rparr> (ex_coin 0 False))"
proof -
  have "GetLoadedCoin [(1, \<lparr>loaded_out = \<lparr>hash = 1, nIndex = 0\<rparr>, loaded_coin = ex_coin 50 False, fSpent = True\<rparr>)] 1
        = Some \<lparr>loaded_out = \<lparr>hash = 1, nIndex = 0\<rparr>, loaded_coin = ex_coin 50 False, fSpent = True\<rparr>"
    by (subst GetLoadedCoin_map_of) simp_all
  then show ?thesis
    by (simp add: ex_defs bw_eval HaveCoin_def HaveLoadedCoin_def GetCoin_def Exists_def ReadCoin_def)
qed

section \<open>C3: the two-tier lookup\<close>

text \<open>
  Claim C3 (two-tier lookup). For every outpoint, \<^verbatim>\<open>GetCoin\<close> first looks the coin key up
  in the primary table and, on a hit, returns that coin whatever the overlay holds. On a
  primary miss it asks the loaded-coin overlay for the record stored under the hash of
  the outpoint: a record whose spent flag is false is returned with \<^verbatim>\<open>fLoaded\<close> set; when
  the record is marked spent, or there is none, \<^verbatim>\<open>GetCoin\<close> returns false.
\<close>

theorem GetCoin_two_tier:
  assumes "distinct (map fst loadedcoins)"
  shows "(\<forall>c. map_of db (CoinKey outpoint) = Some (CoinVal c) \<longrightarrow>
            GetCoin GetHash db loadedcoins outpoint coin = (True, c))
       \<and> (\<forall>lc. map_of db (CoinKey outpoint) = None
              \<and> map_of loadedcoins (GetHash outpoint) = Some lc \<and> \<not> fSpent lc \<longrightarrow>
            GetCoin GetHash db loadedcoins outpoint coin = (True, (loaded_coin lc)\<lparr>fLoaded := True\<rparr>))
       \<and> (\<forall>lc. map_of db (CoinKey outpoint) = None
              \<and> map_of loadedcoins (GetHash outpoint) = Some lc \<and> fSpent lc \<longrightarrow>
            \<not> fst (GetCoin GetHash db loadedcoins outpoint coin))
       \<and> (map_of db (CoinKey outpoint) = None \<and> map_of loadedcoins (GetHash outpoint) = None \<longrightarrow>
            \<not> fst (GetCoin GetHash db loadedcoins outpoint coin))"
  using GetLoadedCoin_map_of [OF assms]
  by (simp add: GetCoin_def ReadCoin_def)

theorem GetCoin_two_tier_witness:
  "GetCoin (\<lambda>_. 7) [] [(7, \<lparr>loaded_out = \<lparr>hash = 1, nIndex = 0\<rparr>,
        loaded_coin = \<lparr>out = \<lparr>nValue = 50, scriptPubKey = []\<rparr>, nHeight = 3, fCoinBase = False,
                        fCriticalData = False, fLoaded = False\<rparr>, fSpent = False\<rparr>)]
      \<lparr>hash = 1, nIndex = 0\<rparr>
      \<lparr>out = \<lparr>nValue = - 1, scriptPubKey = []\<rparr>, nHeight = 0, fCoinBase = False,
        fCriticalData = False, fLoaded = False\<rparr>
   = (True, \<lparr>out = \<lparr>nValue = 50, scriptPubKey = []\<rparr>, nHeight = 3, fCoinBase = False,
        fCriticalData = False, fLoaded = True\<rparr>)
   \<and> GetCoin (\<lambda>_. 7)
      [(CoinKey \<lparr>hash = 1, nIndex = 0\<rparr>, CoinVal \<lparr>out = \<lparr>nValue = 9, scriptPubKey = []\<rparr>, nHeight = 4,
         fCoinBase = True, fCriticalData = False, fLoaded = False\<rparr>)]
      [(7, \<lparr>loaded_out = \<lparr>hash = 1, nIndex = 0\<rparr>,
        loaded_coin = \<lparr>out = \<lparr>nValue = 50, scriptPubKey = []\<rparr>, nHeight = 3, fCoinBase = False,
                        fCriticalData = False, fLoaded = False\<rparr>, fSpent = False\<rparr>)]
      \<lparr>hash = 1, nIndex = 0\<rparr>
      \<lparr>out = \<lparr>nValue = - 1, scriptPubKey = []\<rparr>, nHeight = 0, fCoinBase = False,
        fCriticalData = False, fLoaded = False\<rparr>
   = (True, \<lparr>out = \<lparr>nValue = 9, scriptPubKey = []\<rparr>, nHeight = 4,
         fCoinBase = True, fCriticalData = False, fLoaded = False\<rparr>)"
  using GetCoin_two_tier [of "[(7, \<lparr>loaded_out = \<lparr>hash = 1, nIndex = 0\<rparr>,
        loaded_coin = \<lparr>out = \<lparr>nValue = 50, scriptPubKey = []\<rparr>, nHeight = 3, fCoinBase = False,
                        fCriticalData = False, fLoaded = False\<rparr>, fSpent = False\<rparr>)]"
      "[]" "\<lparr>hash = 1, nIndex = 0\<rparr>" "\<lambda>_. 7"
      "\<lparr>out = \<lparr>nValue = - 1, scriptPubKey = []\<rparr>, nHeight = 0, fCoinBase = False,
        fCriticalData = False, fLoaded = False\<rparr>"]
    GetCoin_two_tier [of "[(7, \<lparr>loaded_out = \<lparr>hash = 1, nIndex = 0\<rparr>,
        loaded_coin = \<lparr>out = \<lparr>nValue = 50, scriptPubKey = []\<rparr>, nHeight = 3, fCoinBase = False,
                        fCriticalData = False, fLoaded = False\<rparr>, fSpent = False\<rparr>)]"
      "[(CoinKey \<lparr>hash = 1, nIndex = 0\<rparr>, CoinVal \<lparr>out = \<lparr>nValue = 9, scriptPubKey = []\<rparr>, nHeight = 4,
         fCoinBase = True, fCriticalData = False, fLoaded = False\<rparr>)]"
      "\<lparr>hash = 1, nIndex = 0\<rparr>" "\<lambda>_. 7"
      "\<lparr>out = \<lparr>nValue = - 1, scriptPubKey = []\<rparr>, nHeight = 0, fCoinBase = False,
        fCriticalData = False, fLoaded = False\<rparr>"]
  by simp

section \<open>C4: the changeset after the commit\<close>

text \<open>
  Claim C4 (the changeset after the commit). When \<^verbatim>\<open>BatchWrite\<close> returns,
  every entry whose coin is not flagged loaded has been erased from the changeset, dirty
  or clean; the entries whose coin is flagged loaded are passed over and are all that is
  left, in their order. The map is empty exactly when no entry was flagged loaded. The
  claim as stated (the map is empty whatever the entries) fails on a changeset that holds
  a loaded entry, as the evaluation after the theorem shows.
\<close>

theorem BatchWrite_drains_unloaded_entries:
  assumes "BatchWrite E e mapCoins hashBlock = Returned ret e' mapCoins'"
  shows "mapCoins' = filter is_loaded mapCoins"
  using BatchWrite_Returned [OF assms] by blast

theorem BatchWrite_drains_unloaded_entries_witness:
  "BatchWrite ex_env ex_engine ex_changeset 7 =
     Returned True
       \<lparr>disk = [(CoinKey \<lparr>hash = 1, nIndex = 0\<rparr>, CoinVal (ex_coin 50 False)), (BestBlockKey, HashVal 7)],
        wlog = [[Erase BestBlockKey, Write HeadBlocksKey (HashesVal [7, 3]),
                 Write (CoinKey \<lparr>hash = 1, nIndex = 0\<rparr>) (CoinVal (ex_coin 50 False))],
                [Erase (CoinKey \<lparr>hash = 2, nIndex = 0\<rparr>), Erase HeadBlocksKey,
                 Write BestBlockKey (HashVal 7)]]\<rparr>
       [(\<lparr>hash = 3, nIndex = 0\<rparr>, \<lparr>entry_coin = ex_coin 20 True, flags = 1\<rparr>)]
   \<and> [(\<lparr>hash = 3, nIndex = 0\<rparr>, \<lparr>entry_coin = ex_coin 20 True, flags = 1\<rparr>)]
       = filter is_loaded ex_changeset"
proof -
  have r: "BatchWrite ex_env ex_engine ex_changeset 7 =
     Returned True
       \<lparr>disk = [(CoinKey \<lparr>hash = 1, nIndex = 0\<rparr>, CoinVal (ex_coin 50 False)), (BestBlockKey, HashVal 7)],
        wlog = [[Erase BestBlockKey, Write HeadBlocksKey (HashesVal [7, 3]),
                 Write (CoinKey \<lparr>hash = 1, nIndex = 0\<rparr>) (CoinVal (ex_coin 50 False))],
                [Erase (CoinKey \<lparr>hash = 2, nIndex = 0\<rparr>), Erase HeadBlocksKey,
                 Write BestBlockKey (HashVal 7)]]\<rparr>
       [(\<lparr>hash = 3, nIndex = 0\<rparr>, \<lparr>entry_coin = ex_coin 20 True, flags = 1\<rparr>)]"
    by (simp add: ex_defs bw_eval)
  from r BatchWrite_drains_unloaded_entries [OF r] show ?thesis by simp
qed

theorem BatchWrite_leaves_loaded_entry:
  "BatchWrite ex_env ex_engine
     [(\<lparr>hash = 3, nIndex = 0\<rparr>, \<lparr>entry_coin = ex_coin 20 True, flags = 1\<rparr>)] 7 =
     Returned True
       \<lparr>disk = [(BestBlockKey, HashVal 7)],
        wlog = [[Erase BestBlockKey, Write HeadBlocksKey (HashesVal [7, 3]),
                 Erase HeadBlocksKey, Write BestBlockKey (HashVal 7)]]\<rparr>
       [(\<lparr>hash = 3, nIndex = 0\<rparr>, \<lparr>entry_coin = ex_coin 20 True, flags = 1\<rparr>)]
   \<and> [(\<lparr>hash = 3, nIndex = 0\<rparr>, \<lparr>entry_coin = ex_coin 20 True, flags = 1\<rparr>)] \<noteq> []"
  by (simp add: ex_defs bw_eval)

section \<open>C5: completeness of the migration\<close>

text \<open>
  Claim C5 (completeness and idempotence of the migration). On a store with no legacy
  key \<^verbatim>\<open>Upgrade\<close> returns true at once and hands nothing to the engine: the engine, its
  store and its log, is unchanged. On a store whose legacy values all parse (with at
  most \<open>2^32\<close> outputs each, the range of the index field), when no shutdown is
  requested and the engine persists every batch, \<^verbatim>\<open>Upgrade\<close> returns true; afterwards
  no legacy key is left; every spendable output \<open>j\<close> of a legacy record \<open>txid\<close> is stored
  under the outpoint \<open>(txid, j)\<close> as the coin built from it; every other key that is not
  a legacy key keeps its value; and when the store held no coin record before, it holds
  exactly as many as the legacy records had spendable outputs. The store keeps the coin
  records it had: on a store that holds one coin record and one legacy record with one
  spendable output, the evaluation after the theorem ends with two coin records.
\<close>

theorem Upgrade_complete:
  "((\<forall>r \<in> set (disk e). \<not> is_legacy_key (fst r)) \<longrightarrow> Upgrade E e = (True, e))
 \<and> (distinct (map fst (disk e))
    \<and> (\<forall>r \<in> set (disk e). is_legacy_key (fst r) \<longrightarrow> is_legacy_record r)
    \<and> (\<forall>t c. (CoinsKey t, CCoinsVal c) \<in> set (disk e) \<longrightarrow> length (vout c) \<le> 2 ^ 32)
    \<and> (\<forall>k. \<not> ShutdownRequested E k) \<and> (\<forall>k. persists E k) \<longrightarrow>
      fst (Upgrade E e)
    \<and> (\<forall>k. is_legacy_key k \<longrightarrow> map_of (disk (snd (Upgrade E e))) k = None)
    \<and> (\<forall>t c j. (CoinsKey t, CCoinsVal c) \<in> set (disk e) \<and> j < length (vout c)
            \<and> spendable E (vout c ! j) \<longrightarrow>
          map_of (disk (snd (Upgrade E e))) (CoinKey \<lparr>hash = t, nIndex = word_of_nat j\<rparr>)
            = Some (CoinVal (upgraded_coin c (vout c ! j))))
    \<and> (\<forall>k. \<not> is_legacy_key k
            \<and> (\<forall>t c j. (CoinsKey t, CCoinsVal c) \<in> set (disk e) \<and> j < length (vout c)
                   \<and> spendable E (vout c ! j) \<longrightarrow> k \<noteq> CoinKey \<lparr>hash = t, nIndex = word_of_nat j\<rparr>) \<longrightarrow>
          map_of (disk (snd (Upgrade E e))) k = map_of (disk e) k)
    \<and> ((\<forall>op. map_of (disk e) (CoinKey op) = None) \<longrightarrow>
          card {op. map_of (disk (snd (Upgrade E e))) (CoinKey op) \<noteq> None} = legacy_outputs E (disk e)))"
proof (intro conjI impI)
  assume "\<forall>r \<in> set (disk e). \<not> is_legacy_key (fst r)"
  then show "Upgrade E e = (True, e)" by (rule Upgrade_nothing_to_do)
next
  assume h: "distinct (map fst (disk e))
    \<and> (\<forall>r \<in> set (disk e). is_legacy_key (fst r) \<longrightarrow> is_legacy_record r)
    \<and> (\<forall>t c. (CoinsKey t, CCoinsVal c) \<in> set (disk e) \<longrightarrow> length (vout c) \<le> 2 ^ 32)
    \<and> (\<forall>k. \<not> ShutdownRequested E k) \<and> (\<forall>k. persists E k)"
  let ?it = "legacy_cursor (disk e)"
  let ?ops = "cursor_ops E ?it"
  let ?d' = "disk (snd (Upgrade E e))"
  from h have dist: "distinct (map fst (disk e))"
    and leg: "\<forall>r \<in> set (disk e). is_legacy_key (fst r) \<longrightarrow> is_legacy_record r"
    and len: "\<forall>t c. (CoinsKey t, CCoinsVal c) \<in> set (disk e) \<longrightarrow> length (vout c) \<le> 2 ^ 32"
    and nsd: "\<forall>k. \<not> ShutdownRequested E k" and per: "\<forall>k. persists E k"
    by simp_all
  from Upgrade_to_completion [OF leg nsd per]
  have ok: "fst (Upgrade E e)" and d': "?d' = apply_batch ?ops (disk e)" by simp_all
  have mem: "\<And>t c. (CoinsKey t, CCoinsVal c) \<in> set ?it \<longleftrightarrow> (CoinsKey t, CCoinsVal c) \<in> set (disk e)"
    by (simp add: set_legacy_cursor)
  have dW: "distinct (map fst (writes ?ops))"
    using distinct_legacy_cursor [OF dist] len by (intro distinct_writes_cursor_ops) (simp_all add: mem)
  have W: "\<And>k v. (k, v) \<in> set (writes ?ops) \<longleftrightarrow>
     (\<exists>t c j. (CoinsKey t, CCoinsVal c) \<in> set (disk e) \<and> j < length (vout c) \<and> spendable E (vout c ! j)
        \<and> k = CoinKey \<lparr>hash = t, nIndex = word_of_nat j\<rparr>
        \<and> v = CoinVal (upgraded_coin c (vout c ! j)))"
    by (simp add: writes_cursor_ops_iff mem)
  have Er: "set (erases ?ops) = {k. \<exists>t c. (CoinsKey t, CCoinsVal c) \<in> set (disk e) \<and> k = CoinsKey t}"
    by (simp add: erases_cursor_ops mem)
  have Wkeys: "\<forall>k \<in> set (map fst (writes ?ops)). \<exists>op. k = CoinKey op"
    using W by force
  have dj: "set (erases ?ops) \<inter> fst ` set (writes ?ops) = {}"
    using Wkeys Er by auto
  note eff = map_of_apply_batch [OF dW dj, of "disk e", folded d']
  show "fst (Upgrade E e)" by (rule ok)
  show "\<forall>k. is_legacy_key k \<longrightarrow> map_of ?d' k = None"
  proof (intro allI impI)
    fix k assume lk: "is_legacy_key k"
    then obtain t where k: "k = CoinsKey t" by (cases k) auto
    have nW: "map_of (writes ?ops) k = None"
      using Wkeys k by (force simp: map_of_eq_None_iff)
    show "map_of ?d' k = None"
    proof (cases "k \<in> set (erases ?ops)")
      case True
      then show ?thesis by (simp add: eff)
    next
      case False
      have "map_of (disk e) k = None"
      proof (rule ccontr)
        assume "map_of (disk e) k \<noteq> None"
        then obtain v where v: "(k, v) \<in> set (disk e)" by (auto dest: map_of_SomeD)
        with leg lk have "is_legacy_record (k, v)" by force
        then obtain c where "v = CCoinsVal c" using k by (cases v) auto
        with v k False Er show False by auto
      qed
      with False nW show ?thesis by (simp add: eff)
    qed
  qed
  show "\<forall>t c j. (CoinsKey t, CCoinsVal c) \<in> set (disk e) \<and> j < length (vout c)
            \<and> spendable E (vout c ! j) \<longrightarrow>
          map_of ?d' (CoinKey \<lparr>hash = t, nIndex = word_of_nat j\<rparr>)
            = Some (CoinVal (upgraded_coin c (vout c ! j)))"
  proof (intro allI impI)
    fix t c j
    assume a: "(CoinsKey t, CCoinsVal c) \<in> set (disk e) \<and> j < length (vout c) \<and> spendable E (vout c ! j)"
    then have "(CoinKey \<lparr>hash = t, nIndex = word_of_nat j\<rparr>, CoinVal (upgraded_coin c (vout c ! j)))
               \<in> set (writes ?ops)"
      unfolding W by blast
    with dW have "map_of (writes ?ops) (CoinKey \<lparr>hash = t, nIndex = word_of_nat j\<rparr>)
                  = Some (CoinVal (upgraded_coin c (vout c ! j)))"
      by (rule map_of_is_SomeI)
    moreover have "CoinKey \<lparr>hash = t, nIndex = word_of_nat j\<rparr> \<notin> set (erases ?ops)"
      using Er by simp
    ultimately show "map_of ?d' (CoinKey \<lparr>hash = t, nIndex = word_of_nat j\<rparr>)
            = Some (CoinVal (upgraded_coin c (vout c ! j)))"
      by (simp add: eff)
  qed
  show "\<forall>k. \<not> is_legacy_key k
            \<and> (\<forall>t c j. (CoinsKey t, CCoinsVal c) \<in> set (disk e) \<and> j < length (vout c)
                   \<and> spendable E (vout c ! j) \<longrightarrow> k \<noteq> CoinKey \<lparr>hash = t, nIndex = word_of_nat j\<rparr>) \<longrightarrow>
          map_of ?d' k = map_of (disk e) k"
  proof (intro allI impI)
    fix k
    assume a: "\<not> is_legacy_key k
            \<and> (\<forall>t c j. (CoinsKey t, CCoinsVal c) \<in> set (disk e) \<and> j < length (vout c)
                   \<and> spendable E (vout c ! j) \<longrightarrow> k \<noteq> CoinKey \<lparr>hash = t, nIndex = word_of_nat j\<rparr>)"
    then have "k \<notin> set (erases ?ops)" using Er by auto
    moreover have "map_of (writes ?ops) k = None"
    proof (rule ccontr)
      assume "map_of (writes ?ops) k \<noteq> None"
      then obtain v where "(k, v) \<in> set (writes ?ops)" by (auto dest: map_of_SomeD)
      with a show False unfolding W by blast
    qed
    ultimately show "map_of ?d' k = map_of (disk e) k" by (simp add: eff)
  qed
  show "card {op. map_of ?d' (CoinKey op) \<noteq> None} = legacy_outputs E (disk e)"
    if none: "\<forall>op. map_of (disk e) (CoinKey op) = None"
  proof -
    have "\<And>op. map_of ?d' (CoinKey op) \<noteq> None \<longleftrightarrow> CoinKey op \<in> set (map fst (writes ?ops))"
    proof -
      fix op
      have "CoinKey op \<notin> set (erases ?ops)" using Er by simp
      then have "map_of ?d' (CoinKey op) \<noteq> None \<longleftrightarrow> map_of (writes ?ops) (CoinKey op) \<noteq> None"
        using none by (simp add: eff split: option.splits)
      also have "\<dots> \<longleftrightarrow> CoinKey op \<in> set (map fst (writes ?ops))"
        by (simp add: map_of_eq_None_iff)
      finally show "map_of ?d' (CoinKey op) \<noteq> None \<longleftrightarrow> CoinKey op \<in> set (map fst (writes ?ops))" .
    qed
    then have "card {op. map_of ?d' (CoinKey op) \<noteq> None}
               = card {op. CoinKey op \<in> set (map fst (writes ?ops))}" by simp
    also have "\<dots> = length (map fst (writes ?ops))"
      using Wkeys dW by (rule card_coin_keys)
    also have "\<dots> = legacy_outputs E (disk e)"
      by (simp add: length_writes_cursor_ops legacy_outputs_cursor)
    finally show "card {op. map_of ?d' (CoinKey op) \<noteq> None} = legacy_outputs E (disk e)" .
  qed
qed

theorem Upgrade_complete_witness:
  "fst (Upgrade ex_env ex_legacy_engine)
 \<and> map_of (disk (snd (Upgrade ex_env ex_legacy_engine))) (CoinsKey 1) = None
 \<and> map_of (disk (snd (Upgrade ex_env ex_legacy_engine))) (CoinsKey 2) = None
 \<and> map_of (disk (snd (Upgrade ex_env ex_legacy_engine))) (CoinKey \<lparr>hash = 2, nIndex = 3\<rparr>)
     = Some (CoinVal \<lparr>out = \<lparr>nValue = 8, scriptPubKey = [2]\<rparr>, nHeight = 10, fCoinBase = False,
                      fCriticalData = False, fLoaded = False\<rparr>)
 \<and> map_of (disk (snd (Upgrade ex_env ex_legacy_engine))) BestBlockKey = Some (HashVal 3)
 \<and> card {op. map_of (disk (snd (Upgrade ex_env ex_legacy_engine))) (CoinKey op) \<noteq> None} = 3
 \<and> Upgrade ex_env ex_engine = (True, ex_engine)"
proof -
  let ?c2 = "\<lparr>legacy_fCoinBase = False,
                  vout = [\<lparr>nValue = 5, scriptPubKey = [1]\<rparr>, \<lparr>nValue = - 1, scriptPubKey = []\<rparr>,
                          \<lparr>nValue = 7, scriptPubKey = [0x6a]\<rparr>, \<lparr>nValue = 8, scriptPubKey = [2]\<rparr>],
                  legacy_nHeight = 10\<rparr>"
  have h: "distinct (map fst (disk ex_legacy_engine))
    \<and> (\<forall>r \<in> set (disk ex_legacy_engine). is_legacy_key (fst r) \<longrightarrow> is_legacy_record r)
    \<and> (\<forall>t c. (CoinsKey t, CCoinsVal c) \<in> set (disk ex_legacy_engine) \<longrightarrow> length (vout c) \<le> 2 ^ 32)
    \<and> (\<forall>k. \<not> ShutdownRequested ex_env k) \<and> (\<forall>k. persists ex_env k)"
    by (auto simp: ex_legacy_engine_def ex_env_def)
  have n: "\<forall>r \<in> set (disk ex_engine). \<not> is_legacy_key (fst r)"
    by (simp add: ex_engine_def)
  note A = Upgrade_complete [of ex_legacy_engine ex_env, THEN conjunct2, THEN mp, OF h]
  note B = Upgrade_complete [of ex_engine ex_env, THEN conjunct1, THEN mp, OF n]
  from A have a1: "fst (Upgrade ex_env ex_legacy_engine)" by (rule conjunct1)
  from A have a2: "\<forall>k. is_legacy_key k \<longrightarrow> map_of (disk (snd (Upgrade ex_env ex_legacy_engine))) k = None"
    by (elim conjE)
  from A have a3: "\<forall>t c j. (CoinsKey t, CCoinsVal c) \<in> set (disk ex_legacy_engine) \<and> j < length (vout c)
            \<and> spendable ex_env (vout c ! j) \<longrightarrow>
          map_of (disk (snd (Upgrade ex_env ex_legacy_engine))) (CoinKey \<lparr>hash = t, nIndex = word_of_nat j\<rparr>)
            = Some (CoinVal (upgraded_coin c (vout c ! j)))"
    by (elim conjE)
  from A have a4: "\<forall>k. \<not> is_legacy_key k
            \<and> (\<forall>t c j. (CoinsKey t, CCoinsVal c) \<in> set (disk ex_legacy_engine) \<and> j < length (vout c)
                   \<and> spendable ex_env (vout c ! j) \<longrightarrow> k \<noteq> CoinKey \<lparr>hash = t, nIndex = word_of_nat j\<rparr>) \<longrightarrow>
          map_of (disk (snd (Upgrade ex_env ex_legacy_engine))) k = map_of (disk ex_legacy_engine) k"
    by (elim conjE)
  from A have a5: "(\<forall>op. map_of (disk ex_legacy_engine) (CoinKey op) = None) \<longrightarrow>
          card {op. map_of (disk (snd (Upgrade ex_env ex_legacy_engine))) (CoinKey op) \<noteq> None}
            = legacy_outputs ex_env (disk ex_legacy_engine)"
    by (elim conjE)
  from a2 have b2: "map_of (disk (snd (Upgrade ex_env ex_legacy_engine))) (CoinsKey 1) = None"
    "map_of (disk (snd (Upgrade ex_env ex_legacy_engine))) (CoinsKey 2) = None" by simp_all
  from a3 [rule_format, of 2 ?c2 3]
  have b3: "map_of (disk (snd (Upgrade ex_env ex_legacy_engine))) (CoinKey \<lparr>hash = 2, nIndex = 3\<rparr>)
     = Some (CoinVal \<lparr>out = \<lparr>nValue = 8, scriptPubKey = [2]\<rparr>, nHeight = 10, fCoinBase = False,
                      fCriticalData = False, fLoaded = False\<rparr>)"
    by (simp add: ex_legacy_engine_def ex_env_def spendable_def CTxOut_IsNull_def upgraded_coin_def)
  from a4 [rule_format, of BestBlockKey]
  have b4: "map_of (disk (snd (Upgrade ex_env ex_legacy_engine))) BestBlockKey = Some (HashVal 3)"
    by (simp add: ex_legacy_engine_def)
  from a5 have b5: "card {op. map_of (disk (snd (Upgrade ex_env ex_legacy_engine))) (CoinKey op) \<noteq> None} = 3"
    by (simp add: ex_legacy_outputs) (simp add: ex_legacy_engine_def)
  from a1 b2 b3 b4 b5 B show ?thesis by simp
qed

theorem Upgrade_adds_to_existing_coin_records:
  "Upgrade ex_env ex_mixed_engine
     = (True,
        \<lparr>disk = [(BestBlockKey, HashVal 3),
                 (CoinKey \<lparr>hash = 9, nIndex = 0\<rparr>, CoinVal (ex_coin 50 False)),
                 (CoinKey \<lparr>hash = 1, nIndex = 0\<rparr>,
                  CoinVal \<lparr>out = \<lparr>nValue = 50, scriptPubKey = [3]\<rparr>, nHeight = 11, fCoinBase = True,
                           fCriticalData = False, fLoaded = False\<rparr>)],
         wlog = [[Write (CoinKey \<lparr>hash = 1, nIndex = 0\<rparr>)
                    (CoinVal \<lparr>out = \<lparr>nValue = 50, scriptPubKey = [3]\<rparr>, nHeight = 11, fCoinBase = True,
                              fCriticalData = False, fLoaded = False\<rparr>),
                  Erase (CoinsKey 1)]]\<rparr>)
 \<and> legacy_outputs ex_env (disk ex_mixed_engine) = 1
 \<and> distinct (map fst (disk ex_mixed_engine))"
proof -
  have cur: "legacy_cursor (disk ex_mixed_engine)
     = [(CoinsKey 1, CCoinsVal \<lparr>legacy_fCoinBase = True,
                  vout = [\<lparr>nValue = 50, scriptPubKey = [3]\<rparr>], legacy_nHeight = 11\<rparr>)]"
    by (simp add: legacy_cursor_eq filter_sort ex_mixed_engine_def)
  have "legacy_outputs ex_env (disk ex_mixed_engine) = 1"
    by (simp add: legacy_outputs_def ex_mixed_engine_def ex_env_def spendable_def CTxOut_IsNull_def)
  moreover have "Upgrade ex_env ex_mixed_engine
     = (True,
        \<lparr>disk = [(BestBlockKey, HashVal 3),
                 (CoinKey \<lparr>hash = 9, nIndex = 0\<rparr>, CoinVal (ex_coin 50 False)),
                 (CoinKey \<lparr>hash = 1, nIndex = 0\<rparr>,
                  CoinVal \<lparr>out = \<lparr>nValue = 50, scriptPubKey = [3]\<rparr>, nHeight = 11, fCoinBase = True,
                           fCriticalData = False, fLoaded = False\<rparr>)],
         wlog = [[Write (CoinKey \<lparr>hash = 1, nIndex = 0\<rparr>)
                    (CoinVal \<lparr>out = \<lparr>nValue = 50, scriptPubKey = [3]\<rparr>, nHeight = 11, fCoinBase = True,
                              fCriticalData = False, fLoaded = False\<rparr>),
                  Erase (CoinsKey 1)]]\<rparr>)"
    unfolding Upgrade_def cur
    by (simp add: Let_def record_ops_def SizeEstimate_def WriteBatch_def apply_batch_def
        ex_env_def ex_mixed_engine_def CTxOut_IsNull_def)
  moreover have "distinct (map fst (disk ex_mixed_engine))"
    by (simp add: ex_mixed_engine_def)
  ultimately show ?thesis by simp
qed

section \<open>C6: cancellation of the migration\<close>

text \<open>
  Claim C6 (cancellation of the migration). Let the cursor be valid after the seek, let
  the \<open>j\<close>-th call of \<^verbatim>\<open>ShutdownRequested()\<close> of the run be the first that returns true
  and let every later call return true (the signal stays set), the \<open>j\<close> records before
  that call being legacy records that parse. Then \<^verbatim>\<open>Upgrade\<close> returns false; it handed
  to the engine, in at least one batch, exactly the operations of the first \<open>j\<close>
  records under the cursor and nothing of the next record; and when the engine persists
  every batch the store is the old one with those operations applied.
\<close>

theorem Upgrade_cancellation:
  assumes "legacy_cursor (disk e) \<noteq> []"
    and "j \<le> length (legacy_cursor (disk e)) + 1"
    and "\<forall>r \<in> set (take j (legacy_cursor (disk e))). is_legacy_record r"
    and "\<forall>i < j. \<not> ShutdownRequested E i"
    and "\<forall>i \<ge> j. ShutdownRequested E i"
  shows "\<not> fst (Upgrade E e)
       \<and> wlog (snd (Upgrade E e)) = wlog e @ new_batches e (snd (Upgrade E e))
       \<and> new_batches e (snd (Upgrade E e)) \<noteq> []
       \<and> concat (new_batches e (snd (Upgrade E e))) = cursor_ops E (take j (legacy_cursor (disk e)))
       \<and> disk (snd (Upgrade E e))
           = run_batches (persists E) (length (wlog e)) (new_batches e (snd (Upgrade E e))) (disk e)
       \<and> ((\<forall>k. persists E k) \<longrightarrow>
            disk (snd (Upgrade E e)) = apply_batch (cursor_ops E (take j (legacy_cursor (disk e)))) (disk e))"
proof -
  let ?it = "legacy_cursor (disk e)"
  have stop: "j < length ?it \<longrightarrow> ShutdownRequested E j" using assms(5) by simp
  from Upgrade_result [OF assms(1,3,4) stop] obtain e' np where
    u: "Upgrade E e = (\<not> ShutdownRequested E (np + 1), e')"
       "np = (if j < length ?it then j + 1 else length ?it)"
       "wlog e' = wlog e @ new_batches e e'"
       "new_batches e e' \<noteq> []"
       "concat (new_batches e e') = cursor_ops E (take j ?it)"
       "disk e' = run_batches (persists E) (length (wlog e)) (new_batches e e') (disk e)"
    by blast
  have "j \<le> np + 1" using u(2) assms(2) by (simp split: if_splits)
  then have "ShutdownRequested E (np + 1)" using assms(5) by blast
  moreover have "(\<forall>k. persists E k) \<longrightarrow> disk e' = apply_batch (cursor_ops E (take j ?it)) (disk e)"
    using u(5,6) run_batches_all_persist [of "persists E"] by simp
  ultimately show ?thesis using u by simp
qed

theorem Upgrade_cancellation_witness:
  "\<not> fst (Upgrade (ex_env\<lparr>ShutdownRequested := (\<lambda>k. 1 \<le> k)\<rparr>) ex_legacy_engine)
 \<and> concat (new_batches ex_legacy_engine
      (snd (Upgrade (ex_env\<lparr>ShutdownRequested := (\<lambda>k. 1 \<le> k)\<rparr>) ex_legacy_engine)))
   = [Write (CoinKey \<lparr>hash = 1, nIndex = 0\<rparr>)
        (CoinVal \<lparr>out = \<lparr>nValue = 50, scriptPubKey = [3]\<rparr>, nHeight = 11, fCoinBase = True,
                  fCriticalData = False, fLoaded = False\<rparr>),
      Erase (CoinsKey 1)]
 \<and> new_batches ex_legacy_engine
      (snd (Upgrade (ex_env\<lparr>ShutdownRequested := (\<lambda>k. 1 \<le> k)\<rparr>) ex_legacy_engine)) \<noteq> []
 \<and> disk (snd (Upgrade (ex_env\<lparr>ShutdownRequested := (\<lambda>k. 1 \<le> k)\<rparr>) ex_legacy_engine))
   = apply_batch
       [Write (CoinKey \<lparr>hash = 1, nIndex = 0\<rparr>)
          (CoinVal \<lparr>out = \<lparr>nValue = 50, scriptPubKey = [3]\<rparr>, nHeight = 11, fCoinBase = True,
                    fCriticalData = False, fLoaded = False\<rparr>),
        Erase (CoinsKey 1)]
       (disk ex_legacy_engine)"
proof -
  let ?E = "ex_env\<lparr>ShutdownRequested := (\<lambda>k. 1 \<le> k)\<rparr>"
  let ?ops = "[Write (CoinKey \<lparr>hash = 1, nIndex = 0\<rparr>)
          (CoinVal \<lparr>out = \<lparr>nValue = 50, scriptPubKey = [3]\<rparr>, nHeight = 11, fCoinBase = True,
                    fCriticalData = False, fLoaded = False\<rparr>),
        Erase (CoinsKey 1)]"
  have ops: "cursor_ops ?E (take 1 (legacy_cursor (disk ex_legacy_engine))) = ?ops"
    by (simp add: ex_legacy_cursor cursor_ops_def record_ops_def ex_env_def CTxOut_IsNull_def)
  have h1: "legacy_cursor (disk ex_legacy_engine) \<noteq> []"
    and h2: "1 \<le> length (legacy_cursor (disk ex_legacy_engine)) + 1"
    and h3: "\<forall>r \<in> set (take 1 (legacy_cursor (disk ex_legacy_engine))). is_legacy_record r"
    by (simp_all add: ex_legacy_cursor)
  have h4: "\<forall>i < 1. \<not> ShutdownRequested ?E i" and h5: "\<forall>i \<ge> 1. ShutdownRequested ?E i"
    and p: "\<forall>k. persists ?E k"
    by (simp_all add: ex_env_def)
  note T = Upgrade_cancellation [OF h1 h2 h3 h4 h5, unfolded ops]
  from T have t1: "\<not> fst (Upgrade ?E ex_legacy_engine)" by (rule conjunct1)
  from T have t2: "new_batches ex_legacy_engine (snd (Upgrade ?E ex_legacy_engine)) \<noteq> []"
    and t3: "concat (new_batches ex_legacy_engine (snd (Upgrade ?E ex_legacy_engine))) = ?ops"
    and t4: "(\<forall>k. persists ?E k) \<longrightarrow>
               disk (snd (Upgrade ?E ex_legacy_engine)) = apply_batch ?ops (disk ex_legacy_engine)"
    by blast+
  from t4 p have t5: "disk (snd (Upgrade ?E ex_legacy_engine)) = apply_batch ?ops (disk ex_legacy_engine)"
    by (rule mp)
  from t1 t2 t3 t5 show ?thesis by (intro conjI)
qed

section \<open>C7: decoding a coin key\<close>

text \<open>
  Claim C7 (decoding a malformed coin key). \<^verbatim>\<open>CoinEntry::Unserialize\<close> fails
  exactly when the byte string ends before the key byte, the 32 bytes of the hash and a
  complete index have been read (fewer than 33 bytes, or no well-formed \<^verbatim>\<open>VARINT\<close> after
  them). It does not compare the leading byte with \<^verbatim>\<open>DB_COIN\<close>: whenever the decoding
  succeeds the leading byte, whatever it is, is the key byte of the entry; and it leaves
  the bytes after the index unread: a string that decodes still decodes, to the same
  entry, with any bytes appended. The discriminator is checked by the cursor. After
  \<^verbatim>\<open>Next\<close> the cursor is valid exactly when the key decoded and its leading byte is
  \<^verbatim>\<open>DB_COIN\<close>. After \<^verbatim>\<open>Cursor\<close>, which drops the result of the decoding, the cursor is
  valid exactly when the seek found a key and the leading byte of that key is
  \<^verbatim>\<open>DB_COIN\<close>, whether or not the key decoded.
\<close>

theorem CoinEntry_Unserialize_failure:
  "(snd (Unserialize e s) = None \<longleftrightarrow> length s < 33 \<or> ReadVarInt (drop 33 s) = None)
 \<and> (snd (Unserialize e s) \<noteq> None \<longrightarrow> ce_key (fst (Unserialize e s)) = hd s)
 \<and> (\<forall>e' r. Unserialize e s = (e', Some r) \<longrightarrow> Unserialize e (s @ t) = (e', Some (r @ t)))
 \<and> (CCoinsViewDBCursor_Valid (Next_keyTmp (Some s) keyTmp)
      \<longleftrightarrow> snd (Unserialize (CoinEntry_new (snd keyTmp)) s) \<noteq> None \<and> hd s = DB_COIN)
 \<and> (CCoinsViewDBCursor_Valid (snd (Cursor rawdb (snd keyTmp)))
      \<longleftrightarrow> (case Seek (\<lambda>k. k) [DB_COIN] (NewIterator (\<lambda>k. k) rawdb) of
             [] \<Rightarrow> False
           | (slKey, _) # _ \<Rightarrow> hd slKey = DB_COIN))"
  using Unserialize_fails_iff [of e s] Unserialize_key [of e s] Valid_Next_iff [of s keyTmp]
    Valid_Cursor_iff [of rawdb "snd keyTmp"] Unserialize_append [of e s _ _ t]
  by blast

theorem CoinEntry_Unserialize_failure_witness:
  "snd (Unserialize (CoinEntry_new \<lparr>hash = 5, nIndex = 9\<rparr>) (DB_COINS # replicate 32 0 @ [0])) \<noteq> None
 \<and> ce_key (fst (Unserialize (CoinEntry_new \<lparr>hash = 5, nIndex = 9\<rparr>) (DB_COINS # replicate 32 0 @ [0])))
     = DB_COINS
 \<and> \<not> CCoinsViewDBCursor_Valid
       (Next_keyTmp (Some (DB_COINS # replicate 32 0 @ [0])) (DB_COIN, \<lparr>hash = 5, nIndex = 9\<rparr>))
 \<and> CCoinsViewDBCursor_Valid
       (snd (Cursor [([DB_COIN, 1, 2], HashVal 0)] (snd (DB_COIN, \<lparr>hash = 5, nIndex = 9\<rparr>))))
 \<and> Unserialize (CoinEntry_new \<lparr>hash = 5, nIndex = 9\<rparr>) ((DB_COINS # replicate 32 0 @ [0]) @ [7, 8])
     = (\<lparr>ce_key = DB_COINS, ce_outpoint = \<lparr>hash = 0, nIndex = 0\<rparr>\<rparr>, Some [7, 8])"
  using CoinEntry_Unserialize_failure
          [of "CoinEntry_new \<lparr>hash = 5, nIndex = 9\<rparr>" "DB_COINS # replicate 32 0 @ [0]" "[7, 8]"
              "(DB_COIN, \<lparr>hash = 5, nIndex = 9\<rparr>)" "[([DB_COIN, 1, 2], HashVal 0)]"]
    Unserialize_example
  by (simp add: DB_COIN_def DB_COINS_def Seek_def NewIterator_def)

theorem CoinEntry_Unserialize_accepts_other_discriminator:
  "DB_COINS \<noteq> DB_COIN
 \<and> Unserialize (CoinEntry_new \<lparr>hash = 5, nIndex = 9\<rparr>) (DB_COINS # replicate 32 0 @ [0])
     = (\<lparr>ce_key = DB_COINS, ce_outpoint = \<lparr>hash = 0, nIndex = 0\<rparr>\<rparr>, Some [])
 \<and> Unserialize (CoinEntry_new \<lparr>hash = 5, nIndex = 9\<rparr>) (DB_COIN # replicate 32 0 @ [0, 0xFF])
     = (\<lparr>ce_key = DB_COIN, ce_outpoint = \<lparr>hash = 0, nIndex = 0\<rparr>\<rparr>, Some [0xFF])
 \<and> Cursor [([DB_COIN, 1, 2], HashVal 0)] \<lparr>hash = 5, nIndex = 9\<rparr>
     = ([([DB_COIN, 1, 2], HashVal 0)], (DB_COIN, \<lparr>hash = 5, nIndex = 9\<rparr>))"
  by code_simp

section \<open>C8: failure modes of the commit\<close>

text \<open>
  Claim C8 (failure modes). A null \<open>hashBlock\<close> fails the first assertion of
  \<^verbatim>\<open>BatchWrite\<close>: the process ends, nothing is returned. A second assertion fails when the
  best block is null, the head-blocks marker has two elements and its first element is
  not \<open>hashBlock\<close>. When \<open>hashBlock\<close> is not null and the marker, if there is one to
  resume from, starts with \<open>hashBlock\<close>, no assertion fails; and \<^verbatim>\<open>BatchWrite\<close> returns
  false only when the engine did not persist the last batch of the call. The claim as
  stated (no assertion can fail once \<open>hashBlock\<close> is not null) fails on a store whose
  marker starts with another hash, as the evaluation after the theorem shows.
\<close>

theorem BatchWrite_failure_modes:
  "(IsNull hashBlock \<longrightarrow> BatchWrite E e mapCoins hashBlock = AssertionFailed TipNotNull)
 \<and> (\<not> IsNull hashBlock
      \<and> IsNull (GetBestBlock (disk e)) \<and> length (GetHeadBlocks (disk e)) = 2
      \<and> GetHeadBlocks (disk e) ! 0 \<noteq> hashBlock \<longrightarrow>
        BatchWrite E e mapCoins hashBlock = AssertionFailed HeadIsNewTip)
 \<and> (\<not> IsNull hashBlock
      \<and> \<not> (IsNull (GetBestBlock (disk e)) \<and> length (GetHeadBlocks (disk e)) = 2
             \<and> GetHeadBlocks (disk e) ! 0 \<noteq> hashBlock) \<longrightarrow>
        (\<forall>a. BatchWrite E e mapCoins hashBlock \<noteq> AssertionFailed a))
 \<and> (\<forall>e' mapCoins'. BatchWrite E e mapCoins hashBlock = Returned False e' mapCoins' \<longrightarrow>
        length (wlog e) < length (wlog e') \<and> \<not> persists E (length (wlog e') - 1))"
proof -
  have "\<forall>e' mapCoins'. BatchWrite E e mapCoins hashBlock = Returned False e' mapCoins' \<longrightarrow>
        length (wlog e) < length (wlog e') \<and> \<not> persists E (length (wlog e') - 1)"
  proof (intro allI impI)
    fix e' mapCoins'
    assume r: "BatchWrite E e mapCoins hashBlock = Returned False e' mapCoins'"
    from BatchWrite_Returned [OF r] obtain chunks rest where
      "wlog e' = wlog e @ chunks @ [rest @ [Erase HeadBlocksKey, Write BestBlockKey (HashVal hashBlock)]]"
      "False = persists E (length (wlog e) + length chunks)"
      by blast
    then show "length (wlog e) < length (wlog e') \<and> \<not> persists E (length (wlog e') - 1)"
      by simp
  qed
  moreover have "IsNull hashBlock \<longrightarrow> BatchWrite E e mapCoins hashBlock = AssertionFailed TipNotNull"
    by (simp add: BatchWrite_def)
  moreover have "\<not> IsNull hashBlock
      \<and> IsNull (GetBestBlock (disk e)) \<and> length (GetHeadBlocks (disk e)) = 2
      \<and> GetHeadBlocks (disk e) ! 0 \<noteq> hashBlock \<longrightarrow>
        BatchWrite E e mapCoins hashBlock = AssertionFailed HeadIsNewTip"
    by (simp add: BatchWrite_def)
  moreover have "\<not> IsNull hashBlock
      \<and> \<not> (IsNull (GetBestBlock (disk e)) \<and> length (GetHeadBlocks (disk e)) = 2
             \<and> GetHeadBlocks (disk e) ! 0 \<noteq> hashBlock) \<longrightarrow>
        (\<forall>a. BatchWrite E e mapCoins hashBlock \<noteq> AssertionFailed a)"
    by (auto simp: BatchWrite_def Let_def split: sum.splits prod.splits)
  ultimately show ?thesis by blast
qed

theorem BatchWrite_failure_modes_witness:
  "IsNull 0 \<and> BatchWrite ex_env ex_engine ex_changeset 0 = AssertionFailed TipNotNull
 \<and> \<not> IsNull 7 \<and> GetBestBlock (disk ex_engine) = 3
 \<and> BatchWrite ex_env ex_engine ex_changeset 7 \<noteq> AssertionFailed TipNotNull
 \<and> BatchWrite ex_env ex_engine ex_changeset 7 \<noteq> AssertionFailed HeadIsNewTip
 \<and> BatchWrite (ex_env\<lparr>persists := (\<lambda>_. False)\<rparr>) ex_engine [] 7 =
     Returned False
       \<lparr>disk = [(BestBlockKey, HashVal 3)],
        wlog = [[Erase BestBlockKey, Write HeadBlocksKey (HashesVal [7, 3]),
                 Erase HeadBlocksKey, Write BestBlockKey (HashVal 7)]]\<rparr> []
 \<and> \<not> persists (ex_env\<lparr>persists := (\<lambda>_. False)\<rparr>) 0"
proof -
  have n: "IsNull 0" "\<not> IsNull 7" "GetBestBlock (disk ex_engine) = 3" "\<not> IsNull 3"
    by (simp_all add: IsNull_def ex_engine_def GetBestBlock_def ReadHash_def)
  have f: "BatchWrite (ex_env\<lparr>persists := (\<lambda>_. False)\<rparr>) ex_engine [] 7 =
     Returned False
       \<lparr>disk = [(BestBlockKey, HashVal 3)],
        wlog = [[Erase BestBlockKey, Write HeadBlocksKey (HashesVal [7, 3]),
                 Erase HeadBlocksKey, Write BestBlockKey (HashVal 7)]]\<rparr> []"
    by (simp add: ex_defs bw_eval)
  from BatchWrite_failure_modes [of 0 ex_env ex_engine ex_changeset] n
  have a: "BatchWrite ex_env ex_engine ex_changeset 0 = AssertionFailed TipNotNull" by blast
  from BatchWrite_failure_modes [of 7 ex_env ex_engine ex_changeset] n
  have b: "\<forall>a. BatchWrite ex_env ex_engine ex_changeset 7 \<noteq> AssertionFailed a" by simp
  from BatchWrite_failure_modes [of 7 "ex_env\<lparr>persists := (\<lambda>_. False)\<rparr>" ex_engine "[]"] f
  have c: "\<not> persists (ex_env\<lparr>persists := (\<lambda>_. False)\<rparr>) 0" by simp
  from n a b c f show ?thesis by simp
qed

theorem BatchWrite_head_assertion_reachable:
  "\<not> IsNull 7
 \<and> BatchWrite ex_env \<lparr>disk = [(HeadBlocksKey, HashesVal [5, 3])], wlog = []\<rparr> [] 7
     = AssertionFailed HeadIsNewTip"
  by (simp add: ex_defs bw_eval)

section \<open>C9: the loaded-coin file round trip\<close>

text \<open>
  Claim C9 (file round trip). For every non-empty vector of loaded-coin records whose
  outpoints have pairwise distinct hashes, with fewer than \<open>2^31\<close> records, when the
  export file can be opened for writing and \<^verbatim>\<open>CLIENT_VERSION\<close> is at least 210000: the
  file \<^verbatim>\<open>WriteMyLoadedCoins\<close> produces is read back by \<^verbatim>\<open>ReadMyLoadedCoins\<close> as the same
  vector with the loaded marker of every coin clear; and importing that file, put in the
  place of \<^verbatim>\<open>loaded_coins.dat\<close>, into a fresh overlay whose engine persists every batch
  succeeds and leaves exactly the records of the vector, the loaded marker clear, each
  under the hash of its outpoint, for every positive batch size. So the overlay holds
  exactly the records of the vector when none of them had the marker set. For the empty
  vector \<^verbatim>\<open>WriteMyLoadedCoins\<close> writes no file: an earlier export is left in place, as the
  evaluation after the theorem shows; two records of one outpoint collapse to the later
  one; and a marker that was set comes back clear.
\<close>

theorem loaded_coins_file_round_trip:
  assumes "vLoadedCoin \<noteq> []"
    and "length vLoadedCoin < 2 ^ 31"
    and "210000 \<le> CLIENT_VERSION F"
    and "can_write F ''my_loaded_coins.dat''"
    and "distinct (map (\<lambda>c. outpoint_hash F (loaded_out c)) vLoadedCoin)"
    and "\<forall>k. index_persists F k"
    and "0 < nBatch"
  shows "ReadMyLoadedCoins F (WriteMyLoadedCoins F fs vLoadedCoin)
           = map (\<lambda>c. c\<lparr>loaded_coin := (loaded_coin c)\<lparr>fLoaded := False\<rparr>\<rparr>) vLoadedCoin
       \<and> ReadLoadedCoins_batched F nBatch
           (fs'(''loaded_coins.dat'' := WriteMyLoadedCoins F fs vLoadedCoin ''my_loaded_coins.dat'')) []
         = (True, map (\<lambda>c. (outpoint_hash F (loaded_out c),
                              c\<lparr>loaded_coin := (loaded_coin c)\<lparr>fLoaded := False\<rparr>\<rparr>)) vLoadedCoin)
       \<and> snd ` set (snd (ReadLoadedCoins_batched F nBatch
           (fs'(''loaded_coins.dat'' := WriteMyLoadedCoins F fs vLoadedCoin ''my_loaded_coins.dat'')) []))
         = (\<lambda>c. c\<lparr>loaded_coin := (loaded_coin c)\<lparr>fLoaded := False\<rparr>\<rparr>) ` set vLoadedCoin
       \<and> ((\<forall>c \<in> set vLoadedCoin. \<not> fLoaded (loaded_coin c)) \<longrightarrow>
           snd ` set (snd (ReadLoadedCoins_batched F nBatch
             (fs'(''loaded_coins.dat'' := WriteMyLoadedCoins F fs vLoadedCoin ''my_loaded_coins.dat'')) []))
           = set vLoadedCoin)"
proof -
  let ?st = "\<lambda>c. c\<lparr>loaded_coin := (loaded_coin c)\<lparr>fLoaded := False\<rparr>\<rparr>"
  let ?imp = "ReadLoadedCoins_batched F nBatch
           (fs'(''loaded_coins.dat'' := WriteMyLoadedCoins F fs vLoadedCoin ''my_loaded_coins.dat'')) []"
  have n: "sint (word_of_nat (length vLoadedCoin) :: 32 word) = int (length vLoadedCoin)"
    using assms(2) by (rule sint_count)
  have v: "sint (210000 :: 32 word) = 210000" by simp
  note f = exported_file [OF assms(1,4), of fs]
  have st: "map Unserialize_LoadedCoin (map Serialize_LoadedCoin vLoadedCoin) = map ?st vLoadedCoin"
    by (simp add: Unserialize_Serialize_LoadedCoin)
  have a: "ReadMyLoadedCoins F (WriteMyLoadedCoins F fs vLoadedCoin) = map ?st vLoadedCoin"
    using assms(3) ReadMyLoadedCoins_loop_all [of 0 "map Serialize_LoadedCoin vLoadedCoin" "[]"]
    by (simp add: ReadMyLoadedCoins_def f n v Unserialize_Serialize_LoadedCoin)
  have "?imp = (True, fold (\<lambda>c s. AList.update (outpoint_hash F (loaded_out c))
                                (Unserialize_LoadedCoin (Serialize_LoadedCoin c)) s)
                        (map Unserialize_LoadedCoin (map Serialize_LoadedCoin vLoadedCoin)) [])"
    using assms(3)
      ReadLoadedCoins_loop_all [OF assms(6), of nBatch 0 "map Serialize_LoadedCoin vLoadedCoin" "[]" 0 "[]"]
    by (simp add: ReadLoadedCoins_batched_def f n v)
  also have "fold (\<lambda>c s. AList.update (outpoint_hash F (loaded_out c))
                                (Unserialize_LoadedCoin (Serialize_LoadedCoin c)) s)
                        (map Unserialize_LoadedCoin (map Serialize_LoadedCoin vLoadedCoin)) []
             = fold (\<lambda>c s. AList.update (outpoint_hash F (loaded_out c)) (?st c) s) vLoadedCoin []"
    by (simp add: fold_map comp_def Unserialize_Serialize_LoadedCoin)
  also have "\<dots> = map (\<lambda>c. (outpoint_hash F (loaded_out c), ?st c)) vLoadedCoin"
    using fold_update_distinct [OF assms(5), of "[]" ?st] by simp
  finally have b: "?imp = (True, map (\<lambda>c. (outpoint_hash F (loaded_out c), ?st c)) vLoadedCoin)" .
  have c: "snd ` set (snd ?imp) = ?st ` set vLoadedCoin"
    by (simp add: b image_image)
  have d: "snd ` set (snd ?imp) = set vLoadedCoin" if "\<forall>c \<in> set vLoadedCoin. \<not> fLoaded (loaded_coin c)"
  proof -
    have "?st c = c" if "c \<in> set vLoadedCoin" for c
      using that \<open>\<forall>c \<in> set vLoadedCoin. \<not> fLoaded (loaded_coin c)\<close> by simp
    then have "?st ` set vLoadedCoin = set vLoadedCoin" by simp
    with c show ?thesis by simp
  qed
  from a b c d show ?thesis by blast
qed

theorem loaded_coins_file_round_trip_witness:
  "ReadMyLoadedCoins ex_file_env
     (WriteMyLoadedCoins ex_file_env (\<lambda>_. None) [ex_loaded 1 False, ex_loaded 2 True])
     = [ex_loaded 1 False, ex_loaded 2 True]
 \<and> ReadLoadedCoins_batched ex_file_env 1
     ((\<lambda>_. None)(''loaded_coins.dat'' :=
        WriteMyLoadedCoins ex_file_env (\<lambda>_. None) [ex_loaded 1 False, ex_loaded 2 True] ''my_loaded_coins.dat'')) []
     = (True, [(1, ex_loaded 1 False), (2, ex_loaded 2 True)])"
  using loaded_coins_file_round_trip
          [where vLoadedCoin = "[ex_loaded 1 False, ex_loaded 2 True]" and F = ex_file_env
             and fs = "\<lambda>_. None" and nBatch = 1 and fs' = "\<lambda>_. None"]
  by (simp add: ex_file_env_def ex_loaded_def ex_coin_def)

theorem loaded_coins_export_of_empty_set:
  "WriteMyLoadedCoins ex_file_env
     ((\<lambda>_. None)(''my_loaded_coins.dat'' \<mapsto>
        [IntItem 210000, IntItem 210000, IntItem 1, CoinItem (Serialize_LoadedCoin (ex_loaded 1 False))])) []
     ''my_loaded_coins.dat''
   = Some [IntItem 210000, IntItem 210000, IntItem 1, CoinItem (Serialize_LoadedCoin (ex_loaded 1 False))]
 \<and> ReadLoadedCoins ex_file_env
     ((\<lambda>_. None)(''loaded_coins.dat'' \<mapsto>
        [IntItem 210000, IntItem 210000, IntItem 1, CoinItem (Serialize_LoadedCoin (ex_loaded 1 False))])) []
   = (True, [(1, ex_loaded 1 False)])
 \<and> WriteMyLoadedCoins ex_file_env (\<lambda>_. None) [] ''my_loaded_coins.dat'' = None
 \<and> ReadLoadedCoins ex_file_env
     ((\<lambda>_. None)(''loaded_coins.dat'' :=
        WriteMyLoadedCoins ex_file_env (\<lambda>_. None) [ex_loaded 1 False, ex_loaded 1 True] ''my_loaded_coins.dat'')) []
   = (True, [(1, ex_loaded 1 True)])
 \<and> ReadLoadedCoins ex_file_env
     ((\<lambda>_. None)(''loaded_coins.dat'' :=
        WriteMyLoadedCoins ex_file_env (\<lambda>_. None)
          [\<lparr>loaded_out = \<lparr>hash = 1, nIndex = 0\<rparr>, loaded_coin = ex_coin 50 True, fSpent = False\<rparr>]
          ''my_loaded_coins.dat'')) []
   = (True, [(1, \<lparr>loaded_out = \<lparr>hash = 1, nIndex = 0\<rparr>, loaded_coin = ex_coin 50 False, fSpent = False\<rparr>)])"
  by (simp add: WriteMyLoadedCoins_def ReadLoadedCoins_def ReadLoadedCoins_batched_def
      ReadLoadedCoins_loop.simps WriteLoadedCoinIndex_def ex_file_env_def ex_loaded_def ex_coin_def
      Serialize_LoadedCoin_def Unserialize_LoadedCoin_def Let_def)

section \<open>C10: the output parameter of GetCoin on a miss\<close>

text \<open>
  Claim C10 (the output parameter on a miss). When the outpoint is absent from the primary
  table and the overlay holds a record for it whose spent flag is set, \<^verbatim>\<open>GetCoin\<close> returns
  false, yet the caller's coin has been overwritten with the coin of the overlay record,
  with \<^verbatim>\<open>fLoaded\<close> set: the coin argument is not left untouched on a miss.
\<close>

theorem GetCoin_miss_overwrites_coin:
  assumes "distinct (map fst loadedcoins)"
    and "map_of db (CoinKey outpoint) = None"
    and "map_of loadedcoins (GetHash outpoint) = Some lc"
    and "fSpent lc"
  shows "GetCoin GetHash db loadedcoins outpoint coin = (False, (loaded_coin lc)\<lparr>fLoaded := True\<rparr>)"
  using GetLoadedCoin_map_of [OF assms(1)] assms(2-4)
  by (simp add: GetCoin_def ReadCoin_def)

theorem GetCoin_miss_overwrites_coin_witness:
  "GetCoin (\<lambda>_. 7) [] [(7, \<lparr>loaded_out = \<lparr>hash = 1, nIndex = 0\<rparr>,
        loaded_coin = \<lparr>out = \<lparr>nValue = 50, scriptPubKey = []\<rparr>, nHeight = 3, fCoinBase = False,
                        fCriticalData = False, fLoaded = False\<rparr>, fSpent = True\<rparr>)]
      \<lparr>hash = 1, nIndex = 0\<rparr>
      \<lparr>out = \<lparr>nValue = - 1, scriptPubKey = []\<rparr>, nHeight = 0, fCoinBase = False,
        fCriticalData = False, fLoaded = False\<rparr>
   = (False, \<lparr>out = \<lparr>nValue = 50, scriptPubKey = []\<rparr>, nHeight = 3, fCoinBase = False,
        fCriticalData = False, fLoaded = True\<rparr>)
   \<and> \<lparr>out = \<lparr>nValue = 50, scriptPubKey = []\<rparr>, nHeight = 3, fCoinBase = False,
        fCriticalData = False, fLoaded = True\<rparr>
     \<noteq> \<lparr>out = \<lparr>nValue = - 1, scriptPubKey = []\<rparr>, nHeight = 0, fCoinBase = False,
        fCriticalData = False, fLoaded = False\<rparr>"
  using GetCoin_miss_overwrites_coin [of "[(7, \<lparr>loaded_out = \<lparr>hash = 1, nIndex = 0\<rparr>,
        loaded_coin = \<lparr>out = \<lparr>nValue = 50, scriptPubKey = []\<rparr>, nHeight = 3, fCoinBase = False,
                        fCriticalData = False, fLoaded = False\<rparr>, fSpent = True\<rparr>)]"
      "[]" "\<lparr>hash = 1, nIndex = 0\<rparr>" "\<lambda>_. 7" _
      "\<lparr>out = \<lparr>nValue = - 1, scriptPubKey = []\<rparr>, nHeight = 0, fCoinBase = False,
        fCriticalData = False, fLoaded = False\<rparr>"]
  by simp

end
